theory Spec2Isabelle
  imports Main "HOL-Library.Char_ord" "HOL-Library.List_Lexorder" "HOL-Library.AList"
begin

section \<open>The generated runtime: \<^verbatim>\<open>_assetfs\<close>, \<^verbatim>\<open>_assetFile\<close> (internal/template.go)\<close>

text \<open>
  A Go \<^verbatim>\<open>[]byte\<close> is a \<^typ>\<open>string\<close> (Isabelle characters are bytes); a Go \<^verbatim>\<open>int\<close> or
  \<^verbatim>\<open>int64\<close> is an \<^typ>\<open>int\<close>, with the 64-bit wrap-around written out in the one place
  where the code adds two of them (\<^verbatim>\<open>Seek\<close>). A function returning \<^verbatim>\<open>(value, error)\<close> returns
  \<open>error + value\<close>; a run-time panic (index out of range, nil dereference) is the value
  \<open>Inl Panic\<close>, which is not one of Go's error values.
\<close>

datatype error =
    ErrNotExist                     \<comment> \<open>\<^verbatim>\<open>os.ErrNotExist\<close>\<close>
  | ErrInvalid                      \<comment> \<open>\<^verbatim>\<open>os.ErrInvalid\<close>\<close>
  | EOF                             \<comment> \<open>\<^verbatim>\<open>io.EOF\<close>\<close>
  | errIsDirectory                  \<comment> \<open>\<^verbatim>\<open>_errIsDirectory\<close>\<close>
  | PathError string string error   \<comment> \<open>\<^verbatim>\<open>&os.PathError{Op, Path, Err}\<close>\<close>
  | ErrSeekWhence                   \<comment> \<open>bytes.Reader.Seek: invalid whence\<close>
  | ErrSeekNegative                 \<comment> \<open>bytes.Reader.Seek: negative position\<close>
  | ErrFileSize string              \<comment> \<open>\<^verbatim>\<open>fmt.Errorf("file %q size exceeds max allowed size", path)\<close>\<close>
  | OSError string                  \<comment> \<open>an error of \<^verbatim>\<open>Lstat\<close>, of reading a directory or of \<^verbatim>\<open>ReadFile\<close>\<close>
  | Panic

text \<open>The text of \<^verbatim>\<open>Error()\<close> for the error values the runtime returns.\<close>

fun Error :: "error \<Rightarrow> string" where
  "Error ErrNotExist = ''file does not exist''"
| "Error ErrInvalid = ''invalid argument''"
| "Error EOF = ''EOF''"
| "Error errIsDirectory = ''is directory''"
| "Error (PathError op p e) = op @ '' '' @ p @ '': '' @ Error e"
| "Error ErrSeekWhence = ''bytes.Reader.Seek: invalid whence''"
| "Error ErrSeekNegative = ''bytes.Reader.Seek: negative position''"
| "Error (ErrFileSize p) = ''file '' @ p @ '' size exceeds max allowed size''"
| "Error (OSError m) = m"
| "Error Panic = ''panic''"

text \<open>\<^verbatim>\<open>os.IsNotExist\<close>: looks through a \<^verbatim>\<open>*PathError\<close> at the error it wraps.\<close>

fun IsNotExist :: "error \<Rightarrow> bool" where
  "IsNotExist ErrNotExist = True"
| "IsNotExist (PathError op p e) = (e = ErrNotExist)"
| "IsNotExist e = False"

record itemMetadata =
  name :: string
  size_ :: int
  mode :: nat
  mtime :: int
  isDir :: bool
  children :: "int list"

record assetfs =
  data :: "string list"
  meta :: "itemMetadata list"
  names :: "string \<rightharpoonup> int"

subsection \<open>\<^verbatim>\<open>bytes.Reader\<close> of the Go library, as \<^verbatim>\<open>Read\<close> and \<^verbatim>\<open>Seek\<close> use it\<close>

text \<open>The fields \<open>s\<close> and \<open>i\<close> of the library's struct are \<open>r_s\<close> and \<open>r_i\<close> here.\<close>

record Reader =
  r_s :: string
  r_i :: int
  prevRune :: int

definition NewReader :: "string \<Rightarrow> Reader" where
  "NewReader b = \<lparr>r_s = b, r_i = 0, prevRune = -1\<rparr>"

definition wrap64 :: "int \<Rightarrow> int" where
  "wrap64 x = (x + 2 ^ 63) mod 2 ^ 64 - 2 ^ 63"

text \<open>\<^verbatim>\<open>r.Read(p)\<close> with \<open>len(p) = n\<close>: the bytes copied into \<open>p\<close> (their number is Go's \<open>n\<close>).\<close>

definition Reader_Read :: "Reader \<Rightarrow> nat \<Rightarrow> Reader \<times> (error + string)" where
  "Reader_Read r n =
     (if r_i r \<ge> int (length (r_s r)) then (r, Inl EOF)
      else if r_i r < 0 then (r\<lparr>prevRune := -1\<rparr>, Inl Panic)
      else let b = take n (drop (nat (r_i r)) (r_s r))
           in (r\<lparr>prevRune := -1, r_i := r_i r + int (length b)\<rparr>, Inr b))"

definition Reader_Seek :: "Reader \<Rightarrow> int \<Rightarrow> int \<Rightarrow> Reader \<times> (error + int)" where
  "Reader_Seek r offset whence =
     (let r1 = r\<lparr>prevRune := -1\<rparr> in
      if whence \<noteq> 0 \<and> whence \<noteq> 1 \<and> whence \<noteq> 2 then (r1, Inl ErrSeekWhence)
      else let abs = (if whence = 0 then offset
                      else if whence = 1 then wrap64 (r_i r + offset)
                      else wrap64 (int (length (r_s r)) + offset))
           in if abs < 0 then (r1, Inl ErrSeekNegative)
              else (r1\<lparr>r_i := abs\<rparr>, Inr abs))"

subsection \<open>\<^verbatim>\<open>path.Clean\<close> of the Go library\<close>

fun split_slash :: "string \<Rightarrow> string \<Rightarrow> string list" where
  "split_slash acc [] = [acc]"
| "split_slash acc (c # cs) =
     (if c = CHR ''/'' then acc # split_slash [] cs else split_slash (acc @ [c]) cs)"

text \<open>
  One path element at a time: \<open>dd\<close> holds the leading \<^verbatim>\<open>..\<close> elements of an unrooted path
  (they cannot be removed), \<open>st\<close> the elements after them, last first.
\<close>

fun clean_elems :: "bool \<Rightarrow> string list \<Rightarrow> string list \<Rightarrow> string list \<Rightarrow> string list" where
  "clean_elems rooted dd st [] = dd @ rev st"
| "clean_elems rooted dd st (e # es) =
     (if e = [] \<or> e = ''.'' then clean_elems rooted dd st es
      else if e = ''..'' then
        (case st of
           x # st' \<Rightarrow> clean_elems rooted dd st' es
         | [] \<Rightarrow> if rooted then clean_elems rooted dd [] es
                 else clean_elems rooted (dd @ [''..'']) [] es)
      else clean_elems rooted dd (e # st) es)"

fun join_slash :: "string list \<Rightarrow> string" where
  "join_slash [] = []"
| "join_slash [e] = e"
| "join_slash (e # es) = e @ ''/'' @ join_slash es"

definition Clean :: "string \<Rightarrow> string" where
  "Clean p =
     (if p = [] then ''.''
      else let rooted = (hd p = CHR ''/'');
               out = (if rooted then ''/'' else []) @
                       join_slash (clean_elems rooted [] [] (split_slash [] p))
           in if out = [] then ''.'' else out)"

subsection \<open>\<^verbatim>\<open>Open\<close>\<close>

record assetFile =
  rd :: "Reader option"
  fi :: itemMetadata
  fs :: assetfs
  read :: int

definition index :: "'a list \<Rightarrow> int \<Rightarrow> 'a option" where
  \<comment> \<open>Go's \<^verbatim>\<open>xs[i]\<close>: \<open>None\<close> is the index-out-of-range panic\<close>
  "index xs j = (if 0 \<le> j \<and> j < int (length xs) then Some (xs ! nat j) else None)"

definition zeroMetadata :: itemMetadata where
  "zeroMetadata = \<lparr>name = [], size_ = 0, mode = 0, mtime = 0, isDir = False, children = []\<rparr>"

definition Open :: "assetfs option \<Rightarrow> string \<Rightarrow> error + assetFile" where
  "Open fsp nm =
     (case fsp of
        None \<Rightarrow> Inl (PathError ''open'' nm ErrNotExist)
      | Some f \<Rightarrow>
         (case names f (Clean (CHR ''/'' # nm)) of
            None \<Rightarrow> Inl ErrNotExist
          | Some j \<Rightarrow>
             (case index (meta f) j of
                None \<Rightarrow> Inl Panic
              | Some m \<Rightarrow>
                 if \<not> isDir m then
                   (case index (data f) j of
                      None \<Rightarrow> Inl Panic
                    | Some b \<Rightarrow> Inr \<lparr>rd = Some (NewReader b), fi = m, fs = f, read = 0\<rparr>)
                 else Inr \<lparr>rd = None, fi = m, fs = f, read = 0\<rparr>)))"

subsection \<open>The methods of \<^verbatim>\<open>_assetFile\<close>\<close>

definition Close :: "assetFile \<Rightarrow> assetFile \<times> error option" where
  "Close af = (af, None)"

definition Stat :: "assetFile \<Rightarrow> assetFile \<times> (error + itemMetadata)" where
  "Stat af = (af, Inr (fi af))"

text \<open>
  The bounded loop of \<^verbatim>\<open>Readdir\<close>:
  \<^verbatim>\<open>for i, idx := range rest { if i == count { break }; out = append(out, af.fs.meta[idx]) }\<close>.
  The unbounded loop is the same loop without the \<^verbatim>\<open>break\<close>; there \<open>count\<close> is \<open>None\<close>.
\<close>

fun readdir_loop ::
  "itemMetadata list \<Rightarrow> int option \<Rightarrow> int \<Rightarrow> int list \<Rightarrow> itemMetadata list
     \<Rightarrow> itemMetadata list option" where
  "readdir_loop ms count k [] out = Some out"
| "readdir_loop ms count k (idx # rest) out =
     (if count = Some k then Some out
      else case index ms idx of
             None \<Rightarrow> None
           | Some m \<Rightarrow> readdir_loop ms count (k + 1) rest (out @ [m]))"

definition slice_from :: "'a list \<Rightarrow> int \<Rightarrow> 'a list option" where
  \<comment> \<open>Go's \<^verbatim>\<open>xs[lo:]\<close>: \<open>None\<close> is the slice-bounds panic\<close>
  "slice_from xs lo = (if 0 \<le> lo \<and> lo \<le> int (length xs) then Some (drop (nat lo) xs) else None)"

definition Readdir :: "assetFile \<Rightarrow> int \<Rightarrow> assetFile \<times> (error + itemMetadata list)" where
  "Readdir af count =
     (if \<not> isDir (fi af) then (af, Inl ErrInvalid)
      else if count \<le> 0 then
        (if read af \<ge> int (length (children (fi af))) then (af, Inr [])
         else case slice_from (children (fi af)) (read af) of
                None \<Rightarrow> (af, Inl Panic)
              | Some rest \<Rightarrow>
                 (case readdir_loop (meta (fs af)) None 0 rest [] of
                    None \<Rightarrow> (af, Inl Panic)
                  | Some out \<Rightarrow> (af\<lparr>read := read af + int (length out)\<rparr>, Inr out)))
      else if read af \<ge> int (length (children (fi af))) then (af, Inl EOF)
      else case slice_from (children (fi af)) (read af) of
             None \<Rightarrow> (af, Inl Panic)
           | Some rest \<Rightarrow>
              (case readdir_loop (meta (fs af)) (Some count) 0 rest [] of
                 None \<Rightarrow> (af, Inl Panic)
               | Some out \<Rightarrow> (af\<lparr>read := read af + int (length out)\<rparr>, Inr out)))"

definition Seek :: "assetFile \<Rightarrow> int \<Rightarrow> int \<Rightarrow> assetFile \<times> (error + int)" where
  "Seek af offset whence =
     (if isDir (fi af) then (af, Inl errIsDirectory)
      else case rd af of
             None \<Rightarrow> (af, Inl Panic)
           | Some r \<Rightarrow> (case Reader_Seek r offset whence of
                          (r', res) \<Rightarrow> (af\<lparr>rd := Some r'\<rparr>, res)))"

definition Read :: "assetFile \<Rightarrow> nat \<Rightarrow> assetFile \<times> (error + string)" where
  "Read af n =
     (if isDir (fi af) then (af, Inl errIsDirectory)
      else case rd af of
             None \<Rightarrow> (af, Inl Panic)
           | Some r \<Rightarrow> (case Reader_Read r n of
                          (r', res) \<Rightarrow> (af\<lparr>rd := Some r'\<rparr>, res)))"

subsection \<open>The sample filesystem of the template: \<^verbatim>\<open>_assetFilesystems\<close>\<close>

definition static_fs :: assetfs where
  "static_fs =
     \<lparr>data = [''abc'', ''cde''],
      meta = [\<lparr>name = ''red'', size_ = 3, mode = 420, mtime = 0, isDir = False, children = []\<rparr>,
              \<lparr>name = ''green'', size_ = 3, mode = 420, mtime = 0, isDir = False, children = []\<rparr>,
              \<lparr>name = ''static'', size_ = 0, mode = 493, mtime = 0, isDir = True, children = [0, 1]\<rparr>],
      names = [''/red'' \<mapsto> 0, ''/green'' \<mapsto> 1, ''/'' \<mapsto> 2]\<rparr>"

definition assetFilesystems :: "string \<rightharpoonup> assetfs" where
  "assetFilesystems = [''static'' \<mapsto> static_fs]"

definition AssetDir :: "string \<Rightarrow> assetfs option" where
  "AssetDir nm = assetFilesystems nm"

definition static_root :: assetFile where
  "static_root = \<lparr>rd = None, fi = meta static_fs ! 2, fs = static_fs, read = 0\<rparr>"

definition static_red :: assetFile where
  "static_red = \<lparr>rd = Some (NewReader ''abc''), fi = meta static_fs ! 0, fs = static_fs, read = 0\<rparr>"


definition valid_children :: "assetFile \<Rightarrow> bool" where
  "valid_children af = list_all (\<lambda>idx. 0 \<le> idx \<and> idx < int (length (meta (fs af)))) (children (fi af))"


section \<open>The generator (assetfs.go)\<close>

definition maxFileSize :: int where
  "maxFileSize = 10 * 2 ^ 20"

text \<open>
  What \<open>os.Lstat\<close> tells of a name, and the \<open>os.FileInfo\<close> made of it, with the methods the
  generator calls: \<open>Name()\<close>, \<open>Size()\<close>, \<open>Mode()\<close>, \<open>ModTime().UnixNano()\<close> and \<open>IsDir()\<close>.
\<close>

record stat =
  Name :: string
  Size :: int
  Mode :: nat
  ModTime :: int

record FileInfo = stat +
  IsDir :: bool

definition fileInfo :: "bool \<Rightarrow> stat \<Rightarrow> FileInfo" where
  "fileInfo d st = \<lparr>Name = Name st, Size = Size st, Mode = Mode st, ModTime = ModTime st, IsDir = d\<rparr>"

text \<open>
  The directory tree that \<open>filepath.Walk\<close> and \<open>ioutil.ReadFile\<close> find: a file with its
  bytes, a file that cannot be read, a directory with its entries (in any order: the walk
  sorts them by name), a directory that cannot be listed, a name whose \<open>Lstat\<close> fails. The
  strings of the failing ones are the operating system's messages.
\<close>

datatype fsnode =
    FsFile stat string
  | FsUnreadable stat string
  | FsDir stat "fsnode list"
  | FsDirErr stat string
  | FsBroken string string

fun node_name :: "fsnode \<Rightarrow> string" where
  "node_name (FsFile st c) = Name st"
| "node_name (FsUnreadable st e) = Name st"
| "node_name (FsDir st es) = Name st"
| "node_name (FsDirErr st e) = Name st"
| "node_name (FsBroken nm e) = nm"

text \<open>
  \<open>filepath.Join(p, nm)\<close> is \<open>Clean(p + "/" + nm)\<close>; \<open>filepath.Dir(p)\<close> is \<open>Clean\<close> of \<open>p\<close> up
  to and with its last slash (on a system whose separator is the slash).
\<close>

definition filepath_Join :: "string \<Rightarrow> string \<Rightarrow> string" where
  "filepath_Join p nm = Clean (p @ ''/'' @ nm)"

fun upto_last_slash :: "string \<Rightarrow> string" where
  "upto_last_slash [] = []"
| "upto_last_slash (c # cs) =
     (if CHR ''/'' \<in> set cs then c # upto_last_slash cs
      else if c = CHR ''/'' then [c] else [])"

definition filepath_Dir :: "string \<Rightarrow> string" where
  "filepath_Dir p = Clean (upto_last_slash p)"

datatype visit =
  Visit (vpath: string) (vinfo: FileInfo) (verr: "error option") (vread: "error + string")

definition nilInfo :: FileInfo where
  "nilInfo = \<lparr>Name = [], Size = 0, Mode = 0, ModTime = 0, IsDir = False\<rparr>"

text \<open>
  The calls of the walk function that \<open>filepath.Walk\<close> makes when none of them fails: a
  directory, then its entries in the order of their names, each with all below it. The
  last field of a visit is what \<open>ioutil.ReadFile\<close> answers for the path.
\<close>

fun visits :: "string \<Rightarrow> fsnode \<Rightarrow> visit list" where
  "visits p (FsBroken nm e) = [Visit p nilInfo (Some (OSError e)) (Inl (OSError e))]"
| "visits p (FsFile st c) = [Visit p (fileInfo False st) None (Inr c)]"
| "visits p (FsUnreadable st e) = [Visit p (fileInfo False st) None (Inl (OSError e))]"
| "visits p (FsDirErr st e) = [Visit p (fileInfo True st) (Some (OSError e)) (Inl (OSError e))]"
| "visits p (FsDir st es) =
     Visit p (fileInfo True st) None (Inl (OSError ''is a directory'')) #
     concat (map (\<lambda>e. visits (filepath_Join p (node_name e)) e) (sort_key node_name es))"

record dirInfo =
  files :: "nat list"
  subdirs :: "nat list"

text \<open>
  A Go map is an association list with distinct keys: \<open>m[k] = v\<close> is \<open>AList.update k v m\<close>,
  \<open>m[k]\<close> is \<open>map_of m k\<close>, \<open>len(m)\<close> is the length. \<open>dirData\<close> maps a path to a pointer to
  a \<open>dirInfo\<close>; no pointer is stored twice, so appending through the pointer is an update
  at the key it was read from.
\<close>

record tree =
  wr :: "string list"     \<comment> \<open>the \<open>[]byte\<close> literals written to the \<open>data\<close> section so far\<close>
  root :: string
  filesMeta :: "FileInfo list"
  dirMeta :: "FileInfo list"
  names_tr :: "(string \<times> nat) list"
  dirData :: "(string \<times> dirInfo) list"

text \<open>\<open>strings.TrimPrefix\<close> and \<open>rootedName\<close>.\<close>

definition TrimPrefix :: "string \<Rightarrow> string \<Rightarrow> string" where
  "TrimPrefix str pre = (if take (length pre) str = pre then drop (length pre) str else str)"

definition rootedName :: "string \<Rightarrow> string \<Rightarrow> string" where
  "rootedName nm rt = (let nm' = TrimPrefix nm rt in if nm' = [] then ''/'' else nm')"

text \<open>
  \<open>walkFunc\<close>; \<open>content\<close> is what \<open>ioutil.ReadFile(path)\<close> answers. On an error the build is
  over and the state is dropped.
\<close>

definition walkFunc :: "tree \<Rightarrow> string \<Rightarrow> FileInfo \<Rightarrow> error option \<Rightarrow> error + string \<Rightarrow> error + tree" where
  "walkFunc tr path info err content =
     (case err of
        Some e \<Rightarrow> Inl e
      | None \<Rightarrow>
         if IsDir info then
           (let idx = length (dirMeta tr);
                tr1 = tr\<lparr>dirMeta := dirMeta tr @ [info],
                        names_tr := AList.update path idx (names_tr tr),
                        dirData := AList.update path \<lparr>files = [], subdirs = []\<rparr> (dirData tr)\<rparr>
            in case map_of (dirData tr1) (filepath_Dir path) of
                 Some pi \<Rightarrow>
                   Inr (tr1\<lparr>dirData := AList.update (filepath_Dir path)
                                          (pi\<lparr>subdirs := subdirs pi @ [idx]\<rparr>) (dirData tr1)\<rparr>)
               | None \<Rightarrow> Inr tr1)
         else if Size info > maxFileSize then Inl (ErrFileSize path)
         else
           (let idx = length (filesMeta tr);
                tr1 = tr\<lparr>filesMeta := filesMeta tr @ [info],
                        names_tr := AList.update path idx (names_tr tr)\<rparr>;
                tr2 = (case map_of (dirData tr1) (filepath_Dir path) of
                         Some pi \<Rightarrow>
                           tr1\<lparr>dirData := AList.update (filepath_Dir path)
                                            (pi\<lparr>files := files pi @ [idx]\<rparr>) (dirData tr1)\<rparr>
                       | None \<Rightarrow> tr1)
            in case content of
                 Inl e \<Rightarrow> Inl e
               | Inr bytes \<Rightarrow> Inr (tr2\<lparr>wr := wr tr2 @ [bytes]\<rparr>)))"

text \<open>\<open>filepath.Walk\<close>: \<open>walkFunc\<close> on every visit in order, until one returns an error.\<close>

fun run :: "tree \<Rightarrow> visit list \<Rightarrow> error + tree" where
  "run tr [] = Inr tr"
| "run tr (v # vs) =
     (case walkFunc tr (vpath v) (vinfo v) (verr v) (vread v) of
        Inl e \<Rightarrow> Inl e
      | Inr tr' \<Rightarrow> run tr' vs)"

definition Walk :: "string \<Rightarrow> fsnode \<Rightarrow> tree \<Rightarrow> error + tree" where
  "Walk rt t tr = run tr (visits rt t)"

text \<open>
  The order in which a \<open>range\<close> loop meets the entries of a map is not fixed by Go. An
  \<open>order\<close> gives, for a map of \<open>n\<close> entries, the positions in the order the loop takes
  them; it is valid when it is a permutation of \<open>0..<n\<close>. \<open>writeMetadata\<close> has three such
  loops.
\<close>

type_synonym order = "nat \<Rightarrow> nat list"

definition valid_order :: "order \<Rightarrow> bool" where
  "valid_order ord = (\<forall>n. distinct (ord n) \<and> set (ord n) = {0..<n})"

definition range_map :: "order \<Rightarrow> ('k \<times> 'v) list \<Rightarrow> ('k \<times> 'v) list" where
  "range_map ord m = map (\<lambda>j. m ! j) (ord (length m))"

record orders =
  ord_names :: order
  ord_dirData :: order
  ord_indexes :: order

definition valid_orders :: "orders \<Rightarrow> bool" where
  "valid_orders os = (valid_order (ord_names os) \<and> valid_order (ord_dirData os) \<and> valid_order (ord_indexes os))"

definition in_order :: order where
  "in_order n = [0..<n]"

definition backwards :: order where
  "backwards n = rev [0..<n]"

text \<open>One entry of \<open>_assetFilesystems\<close> as \<open>writeSection\<close> writes it.\<close>

record fs_literal =
  lit_key :: string
  lit_data :: "string list"
  lit_meta :: "itemMetadata list"
  lit_names :: "(string \<times> nat) list"

text \<open>
  \<open>writeMetadata\<close>: the three loops over maps that build \<open>indexes\<close>, \<open>subdir\<close> and \<open>idx2name\<close>, then
  one \<open>_itemMetadata\<close> literal per entry of \<open>info\<close> and one line of \<open>names\<close> per number below
  \<open>len(indexes)\<close>.
\<close>

definition indexes_of :: "order \<Rightarrow> tree \<Rightarrow> (string \<times> nat) list" where
  "indexes_of ord tr =
     foldl (\<lambda>indexes (nm, j).
              let normName = rootedName nm (root tr);
                  indexes1 = AList.update normName j indexes
              in case map_of (dirData tr) nm of
                   Some d \<Rightarrow> AList.update normName (j + length (filesMeta tr)) indexes1
                 | None \<Rightarrow> indexes1)
       [] (range_map ord (names_tr tr))"

definition subdir_of :: "order \<Rightarrow> tree \<Rightarrow> (string \<times> nat list) list" where
  "subdir_of ord tr =
     foldl (\<lambda>subdir (nm, d).
              AList.update (rootedName nm (root tr))
                (files d @ map (\<lambda>v. v + length (filesMeta tr)) (subdirs d)) subdir)
       [] (range_map ord (dirData tr))"

definition idx2name_of :: "order \<Rightarrow> (string \<times> nat) list \<Rightarrow> (nat \<times> string) list" where
  "idx2name_of ord indexes = foldl (\<lambda>idx2name (k, v). AList.update v k idx2name) [] (range_map ord indexes)"

definition lookup0 :: "('k \<times> 'v) list \<Rightarrow> 'v \<Rightarrow> 'k \<Rightarrow> 'v" where
  \<comment> \<open>\<open>m[k]\<close> read as a value: the zero value when the key is missing\<close>
  "lookup0 m z k = (case map_of m k of Some v \<Rightarrow> v | None \<Rightarrow> z)"

definition meta_item :: "(string \<times> nat list) list \<Rightarrow> (nat \<times> string) list \<Rightarrow> nat \<Rightarrow> FileInfo \<Rightarrow> itemMetadata" where
  "meta_item subdir idx2name j finfo =
     (if \<not> IsDir finfo then
        \<lparr>name = Name finfo, size_ = Size finfo, mode = Mode finfo, mtime = ModTime finfo, isDir = False,
         children = []\<rparr>
      else
        \<lparr>name = Name finfo, size_ = 0, mode = Mode finfo, mtime = ModTime finfo, isDir = True,
         children = map int (lookup0 subdir [] (lookup0 idx2name [] j))\<rparr>)"

definition writeMetadata :: "orders \<Rightarrow> tree \<Rightarrow> fs_literal" where
  "writeMetadata os tr =
     (let info = filesMeta tr @ dirMeta tr;
          indexes = indexes_of (ord_names os) tr;
          subdir = subdir_of (ord_dirData os) tr;
          idx2name = idx2name_of (ord_indexes os) indexes
      in \<lparr>lit_key = root tr,
          lit_data = wr tr,
          lit_meta = map (\<lambda>(j, finfo). meta_item subdir idx2name j finfo) (enumerate 0 info),
          lit_names = map (\<lambda>j. (lookup0 idx2name [] j, j)) [0..<length indexes]\<rparr>)"

definition new_tree :: "string \<Rightarrow> tree" where
  "new_tree dir = \<lparr>wr = [], root = dir, filesMeta = [], dirMeta = [], names_tr = [], dirData = []\<rparr>"

definition writeSection :: "orders \<Rightarrow> string \<Rightarrow> fsnode \<Rightarrow> error + fs_literal" where
  "writeSection os dir t =
     (case Walk dir t (new_tree dir) of
        Inl e \<Rightarrow> Inl e
      | Inr tr \<Rightarrow> Inr (writeMetadata os tr))"

text \<open>
  The filesystem value the generated literal denotes. A literal with a repeated key does
  not compile; \<open>map_of\<close> keeps the first.
\<close>

definition load :: "fs_literal \<Rightarrow> assetfs" where
  "load l = \<lparr>data = lit_data l, meta = lit_meta l,
             names = map_of (map (\<lambda>(k, j). (k, int j)) (lit_names l))\<rparr>"



definition file_visits :: "visit list \<Rightarrow> visit list" where
  "file_visits vs = filter (\<lambda>v. \<not> IsDir (vinfo v)) vs"

definition dir_visits :: "visit list \<Rightarrow> visit list" where
  "dir_visits vs = filter (\<lambda>v. IsDir (vinfo v)) vs"

definition mkstat :: "string \<Rightarrow> int \<Rightarrow> nat \<Rightarrow> stat" where
  "mkstat nm sz md = \<lparr>Name = nm, Size = sz, Mode = md, ModTime = 0\<rparr>"



definition vbytes :: "visit \<Rightarrow> string" where
  "vbytes v = (case vread v of Inr b \<Rightarrow> b | Inl e \<Rightarrow> [])"

text \<open>The entry written for a \<open>FileInfo\<close>, but for its children.\<close>

definition plain_item :: "FileInfo \<Rightarrow> itemMetadata" where
  "plain_item finfo =
     \<lparr>name = Name finfo, size_ = (if IsDir finfo then 0 else Size finfo), mode = Mode finfo,
      mtime = ModTime finfo, isDir = IsDir finfo, children = []\<rparr>"

text \<open>
  What holds of the state between two visits: files and directories are kept apart, one
  \<open>[]byte\<close> literal is written per file, \<open>names\<close> has at most one key per visit, and the
  numbers collected for a directory are positions in \<open>filesMeta\<close> and in \<open>dirMeta\<close>.
\<close>

definition tree_inv :: "tree \<Rightarrow> bool" where
  "tree_inv tr =
     (list_all (\<lambda>f. \<not> IsDir f) (filesMeta tr) \<and> list_all IsDir (dirMeta tr) \<and>
      length (wr tr) = length (filesMeta tr) \<and>
      length (names_tr tr) \<le> length (filesMeta tr) + length (dirMeta tr) \<and>
      list_all (\<lambda>(p, d). list_all (\<lambda>k. k < length (filesMeta tr)) (files d) \<and>
                         list_all (\<lambda>k. k < length (dirMeta tr)) (subdirs d)) (dirData tr))"

definition dd_bound :: "nat \<Rightarrow> nat \<Rightarrow> string \<times> dirInfo \<Rightarrow> bool" where
  "dd_bound nf nd = (\<lambda>(p, d). list_all (\<lambda>k. k < nf) (files d) \<and> list_all (\<lambda>k. k < nd) (subdirs d))"

definition in_orders :: orders where
  "in_orders = \<lparr>ord_names = in_order, ord_dirData = in_order, ord_indexes = in_order\<rparr>"

definition rev_orders :: orders where
  "rev_orders = \<lparr>ord_names = backwards, ord_dirData = backwards, ord_indexes = backwards\<rparr>"

text \<open>
  A tree with files and directories whose names interleave: \<open>a\<close>, \<open>c\<close> are files, \<open>b\<close>, \<open>d\<close>
  directories.
\<close>

definition mixed_tree :: fsnode where
  "mixed_tree = FsDir (mkstat ''assets'' 4096 493)
     [FsFile (mkstat ''c'' 2 420) ''cc'',
      FsDir (mkstat ''d'' 4096 493) [],
      FsDir (mkstat ''b'' 4096 493) [FsFile (mkstat ''f'' 1 420) ''f''],
      FsFile (mkstat ''a'' 3 420) ''aaa'']"

definition mixed_literal :: fs_literal where
  "mixed_literal =
     \<lparr>lit_key = ''assets'', lit_data = [''aaa'', ''f'', ''cc''],
      lit_meta =
        [\<lparr>name = ''a'', size_ = 3, mode = 420, mtime = 0, isDir = False, children = []\<rparr>,
         \<lparr>name = ''f'', size_ = 1, mode = 420, mtime = 0, isDir = False, children = []\<rparr>,
         \<lparr>name = ''c'', size_ = 2, mode = 420, mtime = 0, isDir = False, children = []\<rparr>,
         \<lparr>name = ''assets'', size_ = 0, mode = 493, mtime = 0, isDir = True, children = [0, 2, 4, 5]\<rparr>,
         \<lparr>name = ''b'', size_ = 0, mode = 493, mtime = 0, isDir = True, children = [1]\<rparr>,
         \<lparr>name = ''d'', size_ = 0, mode = 493, mtime = 0, isDir = True, children = []\<rparr>],
      lit_names = [(''/a'', 0), (''/b/f'', 1), (''/c'', 2), (''/'', 3), (''/b'', 4), (''/d'', 5)]\<rparr>"
text \<open>\<open>generateMain\<close>, without the file it writes to: one literal per directory, or the first error.\<close>

fun generateMain :: "orders \<Rightarrow> (string \<Rightarrow> fsnode) \<Rightarrow> string list \<Rightarrow> error + fs_literal list" where
  "generateMain os fsys [] = Inr []"
| "generateMain os fsys (dir # dirs) =
     (case writeSection os (Clean dir) (fsys (Clean dir)) of
        Inl e \<Rightarrow> Inl e
      | Inr l \<Rightarrow> (case generateMain os fsys dirs of
                    Inl e \<Rightarrow> Inl e
                  | Inr ls \<Rightarrow> Inr (l # ls)))"





text \<open>The tree of the template's sample: \<open>red\<close> holds \<open>abc\<close>, \<open>green\<close> holds \<open>cde\<close>.\<close>

definition red_green :: fsnode where
  "red_green = FsDir (mkstat ''static'' 4096 493)
     [FsFile (mkstat ''red'' 3 420) ''abc'', FsFile (mkstat ''green'' 3 420) ''cde'']"

definition red_green_literal :: fs_literal where
  "red_green_literal =
     \<lparr>lit_key = ''static'', lit_data = [''cde'', ''abc''],
      lit_meta =
        [\<lparr>name = ''green'', size_ = 3, mode = 420, mtime = 0, isDir = False, children = []\<rparr>,
         \<lparr>name = ''red'', size_ = 3, mode = 420, mtime = 0, isDir = False, children = []\<rparr>,
         \<lparr>name = ''static'', size_ = 0, mode = 493, mtime = 0, isDir = True, children = [0, 1]\<rparr>],
      lit_names = [(''/green'', 0), (''/red'', 1), (''/'', 2)]\<rparr>"

definition built_red :: assetFile where
  "built_red = \<lparr>rd = Some (NewReader ''abc''), fi = lit_meta red_green_literal ! 1,
                 fs = load red_green_literal, read = 0\<rparr>"

definition built_root :: assetFile where
  "built_root = \<lparr>rd = None, fi = lit_meta red_green_literal ! 2,
                  fs = load red_green_literal, read = 0\<rparr>"

text \<open>The current directory as the root: what \<open>assetfs .\<close> walks.\<close>

definition dot_single :: fsnode where
  "dot_single = FsDir (mkstat ''.'' 4096 493) [FsFile (mkstat ''x'' 1 420) ''a'']"

definition dot_tree :: fsnode where
  "dot_tree = FsDir (mkstat ''.'' 4096 493)
     [FsFile (mkstat ''x'' 1 420) ''a'', FsFile (mkstat ''.x'' 1 420) ''b'']"

text \<open>
  The number \<open>writeMetadata\<close> gives a path of \<open>names\<close>: its number in \<open>names\<close>, moved past the
  files when the path is a key of \<open>dirData\<close>.
\<close>

definition ident :: "tree \<Rightarrow> string \<times> nat \<Rightarrow> nat" where
  "ident tr = (\<lambda>(nm, j). case map_of (dirData tr) nm of Some d \<Rightarrow> j + length (filesMeta tr) | None \<Rightarrow> j)"

text \<open>
  What holds of \<open>names\<close> and \<open>dirData\<close> between two visits when no path is visited twice: the
  directories among the paths of \<open>names\<close> are the keys of \<open>dirData\<close>, and no two files and no
  two directories have the same number.
\<close>

definition names_inv :: "tree \<Rightarrow> bool" where
  "names_inv tr =
     (distinct (map fst (names_tr tr)) \<and> distinct (map fst (dirData tr)) \<and>
      fst ` set (dirData tr) \<subseteq> fst ` set (names_tr tr) \<and>
      (\<forall>(p, v) \<in> set (names_tr tr).
          (p \<in> fst ` set (dirData tr) \<longrightarrow> v < length (dirMeta tr)) \<and>
          (p \<notin> fst ` set (dirData tr) \<longrightarrow> v < length (filesMeta tr))) \<and>
      (\<forall>(p, v) \<in> set (names_tr tr). \<forall>(p', v') \<in> set (names_tr tr).
          (p \<in> fst ` set (dirData tr) \<longleftrightarrow> p' \<in> fst ` set (dirData tr)) \<and> v = v' \<longrightarrow> p = p'))"

text \<open>No two paths of the walk have the same rooted name.\<close>

definition rooted_distinct :: "string \<Rightarrow> fsnode \<Rightarrow> bool" where
  "rooted_distinct dir t = distinct (map (\<lambda>v. rootedName (vpath v) dir) (visits dir t))"

text \<open>The numbers collected for a directory are in increasing order.\<close>

definition dd_sorted :: "string \<times> dirInfo \<Rightarrow> bool" where
  "dd_sorted = (\<lambda>(p, d). sorted_wrt (<) (files d) \<and> sorted_wrt (<) (subdirs d))"

text \<open>
  The names a directory can hold, a tree whose directories hold such names, each once,
  and a root directory given as a relative path of such names, as in \<open>assetfs static\<close>.
\<close>

definition plain :: "string \<Rightarrow> bool" where
  "plain nm = (nm \<noteq> [] \<and> CHR ''/'' \<notin> set nm \<and> nm \<noteq> ''.'' \<and> nm \<noteq> ''..'')"

fun wf_tree :: "fsnode \<Rightarrow> bool" where
  "wf_tree (FsDir st es) =
     (list_all (\<lambda>e. plain (node_name e)) es \<and> distinct (map node_name es) \<and> list_all wf_tree es)"
| "wf_tree n = True"

definition simple_root :: "string \<Rightarrow> bool" where
  "simple_root dir = (\<exists>res. res \<noteq> [] \<and> list_all plain res \<and> dir = join_slash res)"

text \<open>The names from the root down to each visit of the walk, in the order of the walk.\<close>

fun chains :: "fsnode \<Rightarrow> string list list" where
  "chains (FsDir st es) =
     [] # concat (map (\<lambda>e. map ((#) (node_name e)) (chains e)) (sort_key node_name es))"
| "chains n = [[]]"

text \<open>
  The numbers, counted from \<open>f\<close> in the order of the visits, of the files among \<open>vs\<close> whose
  \<open>filepath.Dir\<close> is \<open>q\<close>, and the same for the directories.
\<close>

fun acc_files :: "string \<Rightarrow> visit list \<Rightarrow> nat \<Rightarrow> nat list" where
  "acc_files q [] f = []"
| "acc_files q (v # vs) f =
     (if IsDir (vinfo v) then acc_files q vs f
      else (if filepath_Dir (vpath v) = q then [f] else []) @ acc_files q vs (Suc f))"

fun acc_dirs :: "string \<Rightarrow> visit list \<Rightarrow> nat \<Rightarrow> nat list" where
  "acc_dirs q [] d = []"
| "acc_dirs q (v # vs) d =
     (if IsDir (vinfo v) then (if filepath_Dir (vpath v) = q then [d] else []) @ acc_dirs q vs (Suc d)
      else acc_dirs q vs d)"

text \<open>
  The entries of a directory, by the names from the root: \<open>c\<close> is an entry of the directory
  reached by \<open>ns\<close> when it is \<open>ns\<close> and one more name. \<open>kid_files\<close> are the numbers, counted
  from \<open>f\<close> in the order of the walk, of the files among the entries of \<open>ns\<close>, and \<open>kid_dirs\<close>
  those of the directories.
\<close>

definition is_kid :: "string list \<Rightarrow> string list \<Rightarrow> bool" where
  "is_kid ns c = (c \<noteq> [] \<and> butlast c = ns)"

fun kid_files :: "string list \<Rightarrow> (string list \<times> visit) list \<Rightarrow> nat \<Rightarrow> nat list" where
  "kid_files ns [] f = []"
| "kid_files ns ((c, v) # zs) f =
     (if IsDir (vinfo v) then kid_files ns zs f
      else (if is_kid ns c then [f] else []) @ kid_files ns zs (Suc f))"

fun kid_dirs :: "string list \<Rightarrow> (string list \<times> visit) list \<Rightarrow> nat \<Rightarrow> nat list" where
  "kid_dirs ns [] d = []"
| "kid_dirs ns ((c, v) # zs) d =
     (if IsDir (vinfo v) then (if is_kid ns c then [d] else []) @ kid_dirs ns zs (Suc d)
      else kid_dirs ns zs d)"
text \<open>In a list of chains, every chain comes after the chain of its directory.\<close>

definition pfirst :: "string list list \<Rightarrow> bool" where
  "pfirst cs = (\<forall>pre c post. cs = pre @ c # post \<longrightarrow> c \<noteq> [] \<longrightarrow> butlast c \<in> set pre)"

section \<open>Path cleaning on examples\<close>

lemma Clean_examples:
  "Clean ''/a/../b/./c//'' = ''/b/c'' \<and> Clean ''/../x'' = ''/x'' \<and> Clean ''//'' = ''/'' \<and>
   Clean ''/red'' = ''/red'' \<and> Clean ''/not/a/real/path'' = ''/not/a/real/path'' \<and>
   Clean ''a/../../b'' = ''../b'' \<and> Clean '''' = ''.'' \<and> Clean ''./'' = ''.'' \<and> Clean ''/.'' = ''/''"
  by (simp add: Clean_def)

section \<open>The sample filesystem\<close>

lemma Open_static_root: "Open (AssetDir ''static'') ''/'' = Inr static_root"
  by (simp add: Open_def AssetDir_def assetFilesystems_def static_fs_def Clean_def index_def static_root_def)

lemma Open_static_red: "Open (AssetDir ''static'') ''red'' = Inr static_red"
  by (simp add: Open_def AssetDir_def assetFilesystems_def static_fs_def Clean_def index_def static_red_def)

section \<open>Directory listing\<close>

text \<open>
  C1. On a handle of a directory entry whose cursor \<open>read\<close> is at or past the end of the
  children, \<open>Readdir\<close> with a positive count fails with \<open>io.EOF\<close>, and \<open>Readdir\<close> with a
  count that is zero or negative returns the empty list and no error; the handle is
  the same after either call. A directory without children is in this state from the
  first call on.
\<close>

theorem Readdir_exhausted:
  assumes "isDir (fi af)" and "int (length (children (fi af))) \<le> read af"
  shows "(0 < count \<longrightarrow> Readdir af count = (af, Inl EOF)) \<and>
         (count \<le> 0 \<longrightarrow> Readdir af count = (af, Inr []))"
  using assms by (simp add: Readdir_def)

theorem Readdir_exhausted_witness:
  "Readdir \<lparr>rd = None, fi = zeroMetadata\<lparr>name := ''empty'', isDir := True\<rparr>,
            fs = \<lparr>data = [], meta = [zeroMetadata\<lparr>name := ''empty'', isDir := True\<rparr>],
                  names = [''/'' \<mapsto> 0]\<rparr>, read = 0\<rparr> 1
     = (\<lparr>rd = None, fi = zeroMetadata\<lparr>name := ''empty'', isDir := True\<rparr>,
            fs = \<lparr>data = [], meta = [zeroMetadata\<lparr>name := ''empty'', isDir := True\<rparr>],
                  names = [''/'' \<mapsto> 0]\<rparr>, read = 0\<rparr>, Inl EOF) \<and>
   Readdir \<lparr>rd = None, fi = zeroMetadata\<lparr>name := ''empty'', isDir := True\<rparr>,
            fs = \<lparr>data = [], meta = [zeroMetadata\<lparr>name := ''empty'', isDir := True\<rparr>],
                  names = [''/'' \<mapsto> 0]\<rparr>, read = 0\<rparr> 0
     = (\<lparr>rd = None, fi = zeroMetadata\<lparr>name := ''empty'', isDir := True\<rparr>,
            fs = \<lparr>data = [], meta = [zeroMetadata\<lparr>name := ''empty'', isDir := True\<rparr>],
                  names = [''/'' \<mapsto> 0]\<rparr>, read = 0\<rparr>, Inr [])"
  using Readdir_exhausted
    [of "\<lparr>rd = None, fi = zeroMetadata\<lparr>name := ''empty'', isDir := True\<rparr>,
            fs = \<lparr>data = [], meta = [zeroMetadata\<lparr>name := ''empty'', isDir := True\<rparr>],
                  names = [''/'' \<mapsto> 0]\<rparr>, read = 0\<rparr>" 1]
    Readdir_exhausted
    [of "\<lparr>rd = None, fi = zeroMetadata\<lparr>name := ''empty'', isDir := True\<rparr>,
            fs = \<lparr>data = [], meta = [zeroMetadata\<lparr>name := ''empty'', isDir := True\<rparr>],
                  names = [''/'' \<mapsto> 0]\<rparr>, read = 0\<rparr>" 0]
  by (simp add: zeroMetadata_def)











section \<open>Operations on the wrong kind of entry\<close>

text \<open>
  C7. On a handle of a directory entry \<open>Read\<close> and \<open>Seek\<close> fail with \<open>_errIsDirectory\<close> and
  leave the handle as it was; on a handle of a file entry \<open>Readdir\<close> fails with
  \<open>os.ErrInvalid\<close>. The four errors \<open>_errIsDirectory\<close>, \<open>os.ErrInvalid\<close>, \<open>os.ErrNotExist\<close>
  and \<open>io.EOF\<close> are pairwise distinct values, with pairwise distinct messages.
\<close>

theorem wrong_variant_errors:
  "(isDir (fi af) \<longrightarrow>
      Read af n = (af, Inl errIsDirectory) \<and> Seek af offset whence = (af, Inl errIsDirectory)) \<and>
   (\<not> isDir (fi af) \<longrightarrow> Readdir af cnt = (af, Inl ErrInvalid)) \<and>
   distinct [errIsDirectory, ErrInvalid, ErrNotExist, EOF] \<and>
   distinct (map Error [errIsDirectory, ErrInvalid, ErrNotExist, EOF])"
  by (simp add: Read_def Seek_def Readdir_def)

theorem wrong_variant_errors_witness:
  "Read static_root 10 = (static_root, Inl errIsDirectory) \<and>
   Seek static_root 0 0 = (static_root, Inl errIsDirectory) \<and>
   Readdir static_red 1 = (static_red, Inl ErrInvalid) \<and>
   Readdir static_red 0 = (static_red, Inl ErrInvalid)"
  using wrong_variant_errors[of static_root 10 0 0 1] wrong_variant_errors[of static_red 10 0 0 1]
    wrong_variant_errors[of static_red 10 0 0 0]
  by (simp add: static_root_def static_red_def static_fs_def)

section \<open>Close\<close>

text \<open>
  C10. \<open>Close\<close> returns no error and the handle as it was (cursor, reader and the index
  it points to), so \<open>Read\<close>, \<open>Seek\<close>, \<open>Stat\<close> and \<open>Readdir\<close> after it behave as without it.
\<close>

theorem Close_no_effect:
  "Close af = (af, None) \<and>
   Read (fst (Close af)) n = Read af n \<and>
   Seek (fst (Close af)) offset whence = Seek af offset whence \<and>
   Stat (fst (Close af)) = Stat af \<and>
   Readdir (fst (Close af)) cnt = Readdir af cnt"
  by (simp add: Close_def)

section \<open>Not found\<close>

text \<open>
  C6, as the code has it. \<open>Open\<close> on a nil filesystem fails, for every name, with a
  \<open>*os.PathError\<close> that wraps \<open>os.ErrNotExist\<close> and carries the name as given; \<open>Open\<close> on
  a filesystem fails with the bare \<open>os.ErrNotExist\<close> exactly when \<open>path.Clean("/" + name)\<close>
  is not a key of \<open>names\<close>. Both errors satisfy \<open>os.IsNotExist\<close>, and neither call panics.
\<close>

theorem Open_not_found:
  "Open None nm = Inl (PathError ''open'' nm ErrNotExist) \<and>
   (Open (Some f) nm = Inl ErrNotExist \<longleftrightarrow> names f (Clean (CHR ''/'' # nm)) = None) \<and>
   IsNotExist (PathError ''open'' nm ErrNotExist) \<and> IsNotExist ErrNotExist \<and>
   Open None nm \<noteq> Inl Panic \<and>
   (names f (Clean (CHR ''/'' # nm)) = None \<longrightarrow> Open (Some f) nm \<noteq> Inl Panic)"
  by (auto simp: Open_def split: option.splits)

theorem Open_not_found_witness:
  "Open (AssetDir ''missing'') ''not/a/real/path'' = Inl (PathError ''open'' ''not/a/real/path'' ErrNotExist) \<and>
   Open (AssetDir ''static'') ''not/a/real/path'' = Inl ErrNotExist \<and>
   names static_fs (Clean ''/not/a/real/path'') = None"
  using Open_not_found[of "''not/a/real/path''" static_fs]
  by (simp add: AssetDir_def assetFilesystems_def static_fs_def Clean_def)

text \<open>
  C6 as stated fails: the two failures are not the same error value.
\<close>

theorem Open_not_found_differs:
  "Open (AssetDir ''missing'') ''not/a/real/path'' \<noteq> Open (AssetDir ''static'') ''not/a/real/path''"
  by (simp add: Open_def AssetDir_def assetFilesystems_def static_fs_def Clean_def)

section \<open>The size ceiling\<close>




















section \<open>The layout of a generated literal\<close>

lemma set_update_subset: "set (AList.update k v al) \<subseteq> insert (k, v) (set al)"
  by (induction al) auto

lemma length_update_le: "length (AList.update k v al) \<le> Suc (length al)"
  by (induction al) auto

lemma list_all_update:
  "list_all P al \<Longrightarrow> P (k, v) \<Longrightarrow> list_all P (AList.update k v al)"
  using set_update_subset[of k v al] by (auto simp: list_all_iff)

lemma list_all_mono: "list_all P xs \<Longrightarrow> (\<And>x. P x \<Longrightarrow> Q x) \<Longrightarrow> list_all Q xs"
  by (auto simp: list_all_iff)

lemma map_of_list_all: "list_all P al \<Longrightarrow> map_of al k = Some v \<Longrightarrow> P (k, v)"
  by (auto simp: list_all_iff dest: map_of_SomeD)

lemma walkFunc_dir:
  assumes "walkFunc tr p info err c = Inr tr'" and "IsDir info"
  shows "err = None \<and> root tr' = root tr \<and> filesMeta tr' = filesMeta tr \<and>
         dirMeta tr' = dirMeta tr @ [info] \<and> wr tr' = wr tr \<and>
         length (names_tr tr') \<le> Suc (length (names_tr tr))"
  using assms length_update_le[of p "length (dirMeta tr)" "names_tr tr"]
  by (auto simp: walkFunc_def Let_def split: option.splits)

lemma walkFunc_file:
  assumes "walkFunc tr p info err c = Inr tr'" and "\<not> IsDir info"
  shows "err = None \<and> root tr' = root tr \<and> filesMeta tr' = filesMeta tr @ [info] \<and>
         dirMeta tr' = dirMeta tr \<and> (\<exists>b. c = Inr b \<and> wr tr' = wr tr @ [b]) \<and>
         length (names_tr tr') \<le> Suc (length (names_tr tr))"
  using assms length_update_le[of p "length (filesMeta tr)" "names_tr tr"]
  by (auto simp: walkFunc_def Let_def split: option.splits sum.splits if_splits)

lemma dd_bound_mono: "dd_bound nf nd x \<Longrightarrow> nf \<le> nf' \<Longrightarrow> nd \<le> nd' \<Longrightarrow> dd_bound nf' nd' x"
  by (cases x) (auto simp: dd_bound_def list_all_iff)

lemma walkFunc_dirData:
  assumes "walkFunc tr p info err c = Inr tr'"
    and "list_all (dd_bound (length (filesMeta tr)) (length (dirMeta tr))) (dirData tr)"
  shows "list_all (dd_bound (length (filesMeta tr')) (length (dirMeta tr'))) (dirData tr')"
proof (cases "IsDir info")
  case True
  let ?nf = "length (filesMeta tr)" and ?nd = "Suc (length (dirMeta tr))"
  have a: "list_all (dd_bound ?nf ?nd) (dirData tr)"
    using assms(2) by (rule list_all_mono) (auto intro: dd_bound_mono)
  have b: "list_all (dd_bound ?nf ?nd) (AList.update p \<lparr>files = [], subdirs = []\<rparr> (dirData tr))"
    using a by (rule list_all_update) (simp add: dd_bound_def)
  show ?thesis
  proof (cases "map_of (AList.update p \<lparr>files = [], subdirs = []\<rparr> (dirData tr)) (filepath_Dir p)")
    case None
    with assms(1) True b show ?thesis
      by (auto simp: walkFunc_def Let_def split: option.splits)
  next
    case (Some d)
    have "dd_bound ?nf ?nd (filepath_Dir p, d)" using b Some by (rule map_of_list_all)
    then have "dd_bound ?nf ?nd (filepath_Dir p, d\<lparr>subdirs := subdirs d @ [length (dirMeta tr)]\<rparr>)"
      by (simp add: dd_bound_def)
    with b have "list_all (dd_bound ?nf ?nd)
        (AList.update (filepath_Dir p) (d\<lparr>subdirs := subdirs d @ [length (dirMeta tr)]\<rparr>)
           (AList.update p \<lparr>files = [], subdirs = []\<rparr> (dirData tr)))"
      by (rule list_all_update)
    with assms(1) True Some show ?thesis
      by (auto simp: walkFunc_def Let_def split: option.splits)
  qed
next
  case False
  let ?nf = "Suc (length (filesMeta tr))" and ?nd = "length (dirMeta tr)"
  have a: "list_all (dd_bound ?nf ?nd) (dirData tr)"
    using assms(2) by (rule list_all_mono) (auto intro: dd_bound_mono)
  show ?thesis
  proof (cases "map_of (dirData tr) (filepath_Dir p)")
    case None
    with assms(1) False a show ?thesis
      by (auto simp: walkFunc_def Let_def split: option.splits sum.splits if_splits)
  next
    case (Some d)
    have "dd_bound ?nf ?nd (filepath_Dir p, d)" using a Some by (rule map_of_list_all)
    then have "dd_bound ?nf ?nd (filepath_Dir p, d\<lparr>files := files d @ [length (filesMeta tr)]\<rparr>)"
      by (simp add: dd_bound_def)
    with a have "list_all (dd_bound ?nf ?nd)
        (AList.update (filepath_Dir p) (d\<lparr>files := files d @ [length (filesMeta tr)]\<rparr>) (dirData tr))"
      by (rule list_all_update)
    with assms(1) False Some show ?thesis
      by (auto simp: walkFunc_def Let_def split: option.splits sum.splits if_splits)
  qed
qed

lemma tree_inv_dd:
  "tree_inv tr \<longleftrightarrow>
     list_all (\<lambda>f. \<not> IsDir f) (filesMeta tr) \<and> list_all IsDir (dirMeta tr) \<and>
     length (wr tr) = length (filesMeta tr) \<and>
     length (names_tr tr) \<le> length (filesMeta tr) + length (dirMeta tr) \<and>
     list_all (dd_bound (length (filesMeta tr)) (length (dirMeta tr))) (dirData tr)"
  by (simp add: tree_inv_def dd_bound_def)

lemma walkFunc_inv:
  assumes "walkFunc tr p info err c = Inr tr'" and "tree_inv tr"
  shows "tree_inv tr'"
proof (cases "IsDir info")
  case True
  from walkFunc_dir[OF assms(1) True] walkFunc_dirData[OF assms(1)] assms(2) True
  show ?thesis by (auto simp: tree_inv_dd)
next
  case False
  from walkFunc_file[OF assms(1) False] walkFunc_dirData[OF assms(1)] assms(2) False
  show ?thesis by (auto simp: tree_inv_dd)
qed

lemma run_inv: "run tr vs = Inr tr' \<Longrightarrow> tree_inv tr \<Longrightarrow> tree_inv tr'"
proof (induction vs arbitrary: tr)
  case Nil
  then show ?case by simp
next
  case (Cons v vs)
  then show ?case by (auto split: sum.splits dest: walkFunc_inv)
qed

lemma run_result:
  "run tr vs = Inr tr' \<Longrightarrow>
   root tr' = root tr \<and>
   filesMeta tr' = filesMeta tr @ map vinfo (file_visits vs) \<and>
   dirMeta tr' = dirMeta tr @ map vinfo (dir_visits vs) \<and>
   wr tr' = wr tr @ map vbytes (file_visits vs)"
proof (induction vs arbitrary: tr)
  case Nil
  then show ?case by (simp add: file_visits_def dir_visits_def)
next
  case (Cons v vs)
  from Cons.prems obtain tr1 where
    s: "walkFunc tr (vpath v) (vinfo v) (verr v) (vread v) = Inr tr1" and r: "run tr1 vs = Inr tr'"
    by (auto split: sum.splits)
  note ih = Cons.IH[OF r]
  show ?case
  proof (cases "IsDir (vinfo v)")
    case True
    from walkFunc_dir[OF s True] ih True show ?thesis
      by (simp add: file_visits_def dir_visits_def)
  next
    case False
    from walkFunc_file[OF s False] ih False show ?thesis
      by (auto simp: file_visits_def dir_visits_def vbytes_def)
  qed
qed

lemma new_tree_inv: "tree_inv (new_tree dir)"
  by (simp add: tree_inv_def new_tree_def)


lemma set_range_map: "valid_order ord \<Longrightarrow> set (range_map ord m) = set m"
proof -
  assume "valid_order ord"
  then have "set (ord (length m)) = {0..<length m}" by (simp add: valid_order_def)
  then have "set (range_map ord m) = (\<lambda>j. m ! j) ` {0..<length m}"
    by (simp add: range_map_def)
  also have "\<dots> = set (map (\<lambda>j. m ! j) [0..<length m])" by simp
  also have "\<dots> = set m" by (simp only: map_nth)
  finally show ?thesis .
qed



lemma list_all_foldl:
  "list_all P acc \<Longrightarrow> (\<And>a e. list_all P a \<Longrightarrow> e \<in> set ys \<Longrightarrow> list_all P (step a e)) \<Longrightarrow>
   list_all P (foldl step acc ys)"
  by (induction ys arbitrary: acc) simp_all

lemma subdir_of_bound:
  assumes "valid_order ord"
    and "list_all (dd_bound (length (filesMeta tr)) (length (dirMeta tr))) (dirData tr)"
  shows "list_all (\<lambda>(k, cs). list_all (\<lambda>c. c < length (filesMeta tr) + length (dirMeta tr)) cs)
           (subdir_of ord tr)"
  unfolding subdir_of_def
proof (rule list_all_foldl)
  show "list_all (\<lambda>(k, cs). list_all (\<lambda>c. c < length (filesMeta tr) + length (dirMeta tr)) cs) []"
    by simp
next
  fix a :: "(string \<times> nat list) list" and e :: "string \<times> dirInfo"
  assume a: "list_all (\<lambda>(k, cs). list_all (\<lambda>c. c < length (filesMeta tr) + length (dirMeta tr)) cs) a"
    and e: "e \<in> set (range_map ord (dirData tr))"
  obtain nm d where nd: "e = (nm, d)" by (cases e)
  from e assms have "dd_bound (length (filesMeta tr)) (length (dirMeta tr)) e"
    by (simp add: set_range_map list_all_iff)
  then have "list_all (\<lambda>c. c < length (filesMeta tr) + length (dirMeta tr))
      (files d @ map (\<lambda>v. v + length (filesMeta tr)) (subdirs d))"
    by (auto simp: nd dd_bound_def list_all_iff)
  with a show "list_all (\<lambda>(k, cs). list_all (\<lambda>c. c < length (filesMeta tr) + length (dirMeta tr)) cs)
          (case e of (nm, d) \<Rightarrow>
             AList.update (rootedName nm (root tr))
               (files d @ map (\<lambda>v. v + length (filesMeta tr)) (subdirs d)) a)"
    by (simp add: nd list_all_update)
qed

lemma lookup0_bound:
  "list_all (\<lambda>(k, cs). list_all P cs) m \<Longrightarrow> list_all P (lookup0 m [] k)"
proof (cases "map_of m k")
  case None
  then show ?thesis by (simp add: lookup0_def)
next
  case (Some cs)
  assume a: "list_all (\<lambda>(k, cs). list_all P cs) m"
  from Some have "(k, cs) \<in> set m" by (rule map_of_SomeD)
  with a have "list_all P cs" by (auto simp: list_all_iff)
  with Some show ?thesis by (simp add: lookup0_def)
qed

lemma meta_item_simps:
  "name (meta_item sd i2n j finfo) = Name finfo"
  "isDir (meta_item sd i2n j finfo) = IsDir finfo"
  by (simp_all add: meta_item_def)

lemma meta_item_plain: "(meta_item sd i2n j finfo)\<lparr>children := []\<rparr> = plain_item finfo"
  by (simp add: meta_item_def plain_item_def)

lemma meta_item_children:
  "children (meta_item sd i2n j finfo) =
     (if IsDir finfo then map int (lookup0 sd [] (lookup0 i2n [] j)) else [])"
  by (simp add: meta_item_def)

lemma map_enumerate_snd: "map (\<lambda>x. f (snd x)) (enumerate n xs) = map f xs"
  by (induction xs arbitrary: n) simp_all

lemma writeMetadata_fields:
  "lit_data (writeMetadata os tr) = wr tr"
  "length (lit_meta (writeMetadata os tr)) = length (filesMeta tr) + length (dirMeta tr)"
  "map name (lit_meta (writeMetadata os tr)) = map Name (filesMeta tr @ dirMeta tr)"
  "map isDir (lit_meta (writeMetadata os tr)) = map IsDir (filesMeta tr @ dirMeta tr)"
  "map (\<lambda>m. m\<lparr>children := []\<rparr>) (lit_meta (writeMetadata os tr)) =
     map plain_item (filesMeta tr @ dirMeta tr)"
  by (simp_all add: writeMetadata_def Let_def meta_item_simps meta_item_plain map_enumerate_snd
      case_prod_unfold o_def del: map_append)

lemma writeMetadata_nth:
  "j < length (filesMeta tr) + length (dirMeta tr) \<Longrightarrow>
   lit_meta (writeMetadata os tr) ! j =
     meta_item (subdir_of (ord_dirData os) tr)
       (idx2name_of (ord_indexes os) (indexes_of (ord_names os) tr)) j ((filesMeta tr @ dirMeta tr) ! j)"
  by (simp add: writeMetadata_def Let_def nth_enumerate_eq)


lemma writeMetadata_children:
  assumes "valid_orders os" and "tree_inv tr"
  shows "list_all (\<lambda>m. list_all (\<lambda>c. 0 \<le> c \<and> c < int (length (lit_meta (writeMetadata os tr)))) (children m))
           (lit_meta (writeMetadata os tr))"
proof -
  have b: "list_all (\<lambda>c. c < length (filesMeta tr) + length (dirMeta tr))
             (lookup0 (subdir_of (ord_dirData os) tr) [] k)" for k
  proof -
    have "list_all (\<lambda>(k, cs). list_all (\<lambda>c. c < length (filesMeta tr) + length (dirMeta tr)) cs)
           (subdir_of (ord_dirData os) tr)"
      by (rule subdir_of_bound) (use assms in \<open>simp_all add: valid_orders_def tree_inv_dd\<close>)
    then show ?thesis by (rule lookup0_bound)
  qed
  show ?thesis
    unfolding list_all_iff
  proof (intro ballI)
    fix m c assume m: "m \<in> set (lit_meta (writeMetadata os tr))" and c: "c \<in> set (children m)"
    from m obtain n where n': "n < length (lit_meta (writeMetadata os tr))"
      and mn: "m = lit_meta (writeMetadata os tr) ! n"
      by (auto simp: in_set_conv_nth)
    from n' have n: "n < length (filesMeta tr) + length (dirMeta tr)"
      by (simp add: writeMetadata_fields)
    from c obtain c' where "c = int c'"
      and "c' \<in> set (lookup0 (subdir_of (ord_dirData os) tr) []
               (lookup0 (idx2name_of (ord_indexes os) (indexes_of (ord_names os) tr)) [] n))"
      by (auto simp: mn writeMetadata_nth[OF n] meta_item_children split: if_splits)
    with b[of "lookup0 (idx2name_of (ord_indexes os) (indexes_of (ord_names os) tr)) [] n"]
    show "0 \<le> c \<and> c < int (length (lit_meta (writeMetadata os tr)))"
      by (auto simp: list_all_iff writeMetadata_fields)
  qed
qed
lemma writeSection_Inr:
  "writeSection os dir t = Inr l \<Longrightarrow>
   \<exists>tr. run (new_tree dir) (visits dir t) = Inr tr \<and> l = writeMetadata os tr"
  by (auto simp: writeSection_def Walk_def split: sum.splits)






text \<open>
  Every child number that a generated literal lists for a directory names an entry of the
  literal, so a handle opened on it satisfies \<open>valid_children\<close>.
\<close>

lemma Open_built_valid_children:
  assumes "writeSection os dir t = Inr l" and "valid_orders os"
    and "Open (Some (load l)) nm = Inr af"
  shows "valid_children af"
proof -
  from writeSection_Inr[OF assms(1)] obtain tr where
    r: "run (new_tree dir) (visits dir t) = Inr tr" and l: "l = writeMetadata os tr" by blast
  have inv: "tree_inv tr" using r new_tree_inv by (rule run_inv)
  have c: "list_all (\<lambda>m. list_all (\<lambda>c. 0 \<le> c \<and> c < int (length (lit_meta l))) (children m)) (lit_meta l)"
    using writeMetadata_children[OF assms(2) inv] by (simp add: l)
  from assms(3) obtain x where f: "fs af = load l" and "index (meta (load l)) x = Some (fi af)"
    by (auto simp: Open_def split: option.splits if_splits)
  then have "nat x < length (lit_meta l)" and "lit_meta l ! nat x = fi af"
    by (auto simp: index_def load_def split: if_splits)
  then have "fi af \<in> set (lit_meta l)"
    using nth_mem by fastforce
  with c show ?thesis
    by (simp add: valid_children_def f load_def list_all_iff)
qed

lemma valid_in_orders: "valid_orders in_orders"
  by (simp add: valid_orders_def valid_order_def in_orders_def in_order_def)

lemma valid_rev_orders: "valid_orders rev_orders"
  by (simp add: valid_orders_def valid_order_def rev_orders_def backwards_def)


lemma writeSection_mixed_rev: "writeSection rev_orders ''assets'' mixed_tree = Inr mixed_literal"
  by code_simp


section \<open>The children of a directory\<close>

lemma sorted_wrt_snoc_bound:
  "sorted_wrt (<) xs \<Longrightarrow> list_all (\<lambda>k. k < n) xs \<Longrightarrow> sorted_wrt (<) (xs @ [n :: nat])"
  by (auto simp: sorted_wrt_append list_all_iff)

lemma walkFunc_dd_sorted:
  assumes "walkFunc tr p info err c = Inr tr'"
    and "list_all (dd_bound (length (filesMeta tr)) (length (dirMeta tr))) (dirData tr)"
    and "list_all dd_sorted (dirData tr)"
  shows "list_all dd_sorted (dirData tr')"
proof (cases "IsDir info")
  case True
  let ?d1 = "AList.update p \<lparr>files = [], subdirs = []\<rparr> (dirData tr)"
  have s1: "list_all dd_sorted ?d1"
    using assms(3) by (rule list_all_update) (simp add: dd_sorted_def)
  have b1: "list_all (dd_bound (length (filesMeta tr)) (length (dirMeta tr))) ?d1"
    using assms(2) by (rule list_all_update) (simp add: dd_bound_def)
  show ?thesis
  proof (cases "map_of ?d1 (filepath_Dir p)")
    case None
    with assms(1) True have "dirData tr' = ?d1"
      by (auto simp: walkFunc_def Let_def split: option.splits)
    with s1 show ?thesis by simp
  next
    case (Some d)
    from s1 Some have "dd_sorted (filepath_Dir p, d)" by (rule map_of_list_all)
    moreover from b1 Some have "dd_bound (length (filesMeta tr)) (length (dirMeta tr)) (filepath_Dir p, d)"
      by (rule map_of_list_all)
    ultimately have "dd_sorted (filepath_Dir p, d\<lparr>subdirs := subdirs d @ [length (dirMeta tr)]\<rparr>)"
      by (simp add: dd_sorted_def dd_bound_def sorted_wrt_snoc_bound)
    with s1 have "list_all dd_sorted
        (AList.update (filepath_Dir p) (d\<lparr>subdirs := subdirs d @ [length (dirMeta tr)]\<rparr>) ?d1)"
      by (rule list_all_update)
    moreover from assms(1) True Some have "dirData tr' =
        AList.update (filepath_Dir p) (d\<lparr>subdirs := subdirs d @ [length (dirMeta tr)]\<rparr>) ?d1"
      by (auto simp: walkFunc_def Let_def split: option.splits)
    ultimately show ?thesis by simp
  qed
next
  case False
  show ?thesis
  proof (cases "map_of (dirData tr) (filepath_Dir p)")
    case None
    with assms(1) False have "dirData tr' = dirData tr"
      by (auto simp: walkFunc_def Let_def split: option.splits sum.splits if_splits)
    with assms(3) show ?thesis by simp
  next
    case (Some d)
    from assms(3) Some have "dd_sorted (filepath_Dir p, d)" by (rule map_of_list_all)
    moreover from assms(2) Some have "dd_bound (length (filesMeta tr)) (length (dirMeta tr)) (filepath_Dir p, d)"
      by (rule map_of_list_all)
    ultimately have "dd_sorted (filepath_Dir p, d\<lparr>files := files d @ [length (filesMeta tr)]\<rparr>)"
      by (simp add: dd_sorted_def dd_bound_def sorted_wrt_snoc_bound)
    with assms(3) have "list_all dd_sorted
        (AList.update (filepath_Dir p) (d\<lparr>files := files d @ [length (filesMeta tr)]\<rparr>) (dirData tr))"
      by (rule list_all_update)
    moreover from assms(1) False Some have "dirData tr' =
        AList.update (filepath_Dir p) (d\<lparr>files := files d @ [length (filesMeta tr)]\<rparr>) (dirData tr)"
      by (auto simp: walkFunc_def Let_def split: option.splits sum.splits if_splits)
    ultimately show ?thesis by simp
  qed
qed

lemma run_dd_sorted:
  "run tr vs = Inr tr' \<Longrightarrow> tree_inv tr \<Longrightarrow> list_all dd_sorted (dirData tr) \<Longrightarrow>
   list_all dd_sorted (dirData tr')"
proof (induction vs arbitrary: tr)
  case Nil
  then show ?case by simp
next
  case (Cons v vs)
  from Cons.prems(1) obtain tr1 where
    s: "walkFunc tr (vpath v) (vinfo v) (verr v) (vread v) = Inr tr1" and r: "run tr1 vs = Inr tr'"
    by (auto split: sum.splits)
  from Cons.prems(2) have b: "list_all (dd_bound (length (filesMeta tr)) (length (dirMeta tr))) (dirData tr)"
    by (simp add: tree_inv_dd)
  from Cons.IH[OF r walkFunc_inv[OF s Cons.prems(2)] walkFunc_dd_sorted[OF s b Cons.prems(3)]]
  show ?case .
qed

text \<open>
  In every generated literal the children of an entry are listed in increasing order,
  and the numbers below \<open>F\<close>, the files, come before the numbers from \<open>F\<close> on, the
  directories: files and directories are never interleaved, and each group is in the
  order of the walk.
\<close>

lemma children_files_then_dirs:
  assumes "writeSection os dir t = Inr l" and "valid_orders os" and "m \<in> set (lit_meta l)"
  shows "\<exists>fs ds. children m = map int (fs @ ds) \<and>
           sorted_wrt (<) fs \<and> sorted_wrt (<) ds \<and>
           list_all (\<lambda>k. k < length (lit_data l)) fs \<and>
           list_all (\<lambda>k. length (lit_data l) \<le> k \<and> k < length (lit_meta l)) ds"
proof -
  from writeSection_Inr[OF assms(1)] obtain tr where
    r: "run (new_tree dir) (visits dir t) = Inr tr" and l: "l = writeMetadata os tr" by blast
  have inv: "tree_inv tr" using r new_tree_inv by (rule run_inv)
  have srt: "list_all dd_sorted (dirData tr)"
    using r new_tree_inv by (rule run_dd_sorted) (simp add: new_tree_def)
  let ?F = "length (filesMeta tr)" and ?D = "length (dirMeta tr)"
  have F: "length (lit_data l) = ?F" "length (lit_meta l) = ?F + ?D"
    using inv by (simp_all add: l writeMetadata_fields tree_inv_def)
  let ?P = "\<lambda>cs. \<exists>fs ds. cs = fs @ ds \<and> sorted_wrt (<) fs \<and> sorted_wrt (<) ds \<and>
           list_all (\<lambda>k. k < ?F) fs \<and> list_all (\<lambda>k. ?F \<le> k \<and> k < ?F + ?D) ds"
  have sd: "list_all (\<lambda>(k, cs). ?P cs) (subdir_of (ord_dirData os) tr)"
    unfolding subdir_of_def
  proof (rule list_all_foldl)
    show "list_all (\<lambda>(k, cs). ?P cs) []" by simp
  next
    fix a :: "(string \<times> nat list) list" and e :: "string \<times> dirInfo"
    assume a: "list_all (\<lambda>(k, cs). ?P cs) a" and e: "e \<in> set (range_map (ord_dirData os) (dirData tr))"
    obtain nm d where nd: "e = (nm, d)" by (cases e)
    from e assms(2) have e': "e \<in> set (dirData tr)"
      by (simp add: set_range_map valid_orders_def)
    with inv srt have "dd_bound ?F ?D e" "dd_sorted e"
      by (simp_all add: tree_inv_dd list_all_iff)
    then have "?P (files d @ map (\<lambda>v. v + ?F) (subdirs d))"
      by (intro exI[of _ "files d"] exI[of _ "map (\<lambda>v. v + ?F) (subdirs d)"])
         (auto simp: nd dd_bound_def dd_sorted_def list_all_iff sorted_wrt_map)
    with a show "list_all (\<lambda>(k, cs). ?P cs)
          (case e of (nm, d) \<Rightarrow>
             AList.update (rootedName nm (root tr))
               (files d @ map (\<lambda>v. v + ?F) (subdirs d)) a)"
      by (simp add: nd list_all_update)
  qed
  have look: "?P (lookup0 (subdir_of (ord_dirData os) tr) [] k)" for k
  proof (cases "map_of (subdir_of (ord_dirData os) tr) k")
    case None
    then show ?thesis by (simp add: lookup0_def)
  next
    case (Some cs)
    with sd have "?P cs" by (auto simp: list_all_iff dest!: map_of_SomeD)
    with Some show ?thesis by (simp add: lookup0_def)
  qed
  from assms(3) obtain n where n: "n < ?F + ?D" and mn: "m = lit_meta l ! n"
    by (auto simp: in_set_conv_nth F)
  have "children m = map int (lookup0 (subdir_of (ord_dirData os) tr) []
            (lookup0 (idx2name_of (ord_indexes os) (indexes_of (ord_names os) tr)) [] n)) \<or>
        children m = []"
    by (simp add: mn l writeMetadata_nth[OF n] meta_item_children)
  then show ?thesis
  proof
    assume c: "children m = map int (lookup0 (subdir_of (ord_dirData os) tr) []
            (lookup0 (idx2name_of (ord_indexes os) (indexes_of (ord_names os) tr)) [] n))"
    from look[of "lookup0 (idx2name_of (ord_indexes os) (indexes_of (ord_names os) tr)) [] n"]
    obtain fs ds where "lookup0 (subdir_of (ord_dirData os) tr) []
            (lookup0 (idx2name_of (ord_indexes os) (indexes_of (ord_names os) tr)) [] n) = fs @ ds"
      "sorted_wrt (<) fs" "sorted_wrt (<) ds" "list_all (\<lambda>k. k < ?F) fs"
      "list_all (\<lambda>k. ?F \<le> k \<and> k < ?F + ?D) ds" by blast
    with c F show ?thesis by auto
  next
    assume "children m = []"
    then show ?thesis by (intro exI[of _ "[]"]) simp
  qed
qed

section \<open>The order of the map iterations\<close>

lemma foldl_update_snoc:
  "foldl (\<lambda>acc e. AList.update (kf e) (vf e) acc) acc (ys @ [y]) =
   AList.update (kf y) (vf y) (foldl (\<lambda>acc e. AList.update (kf e) (vf e) acc) acc ys)"
  by simp

lemma foldl_update_other:
  "k \<notin> kf ` set ys \<Longrightarrow>
   map_of (foldl (\<lambda>acc e. AList.update (kf e) (vf e) acc) acc ys) k = map_of acc k"
  by (induction ys arbitrary: acc) (simp_all add: update_conv')

lemma foldl_update_hit:
  "e \<in> set ys \<Longrightarrow> inj_on kf (set ys) \<Longrightarrow>
   map_of (foldl (\<lambda>acc e. AList.update (kf e) (vf e) acc) acc ys) (kf e) = Some (vf e)"
proof (induction ys arbitrary: acc rule: rev_induct)
  case Nil
  then show ?case by simp
next
  case (snoc y ys)
  show ?case
  proof (cases "e = y")
    case True
    then show ?thesis by (simp add: update_conv')
  next
    case False
    with snoc.prems have e: "e \<in> set ys" by simp
    from snoc.prems have inj: "inj_on kf (set ys)" by (simp add: inj_on_def)
    from snoc.prems e False have "kf e \<noteq> kf y" by (auto simp: inj_on_def)
    with snoc.IH[OF e inj] show ?thesis by (simp add: update_conv')
  qed
qed

lemma foldl_update_distinct:
  "distinct (map fst acc) \<Longrightarrow>
   distinct (map fst (foldl (\<lambda>acc e. AList.update (kf e) (vf e) acc) acc ys))"
  by (induction ys arbitrary: acc) (simp_all add: distinct_update)

lemma foldl_update_keys:
  "fst ` set (foldl (\<lambda>acc e. AList.update (kf e) (vf e) acc) acc ys) = fst ` set acc \<union> kf ` set ys"
  by (induction ys arbitrary: acc) (auto simp: dom_update)

text \<open>Two runs of the same updates in different orders give the same map and the same length.\<close>

lemma foldl_update_map_of_eq:
  assumes "set ys = set zs" and "inj_on kf (set ys)"
  shows "map_of (foldl (\<lambda>acc e. AList.update (kf e) (vf e) acc) [] ys) =
         map_of (foldl (\<lambda>acc e. AList.update (kf e) (vf e) acc) [] zs)"
proof
  fix k
  show "map_of (foldl (\<lambda>acc e. AList.update (kf e) (vf e) acc) [] ys) k =
        map_of (foldl (\<lambda>acc e. AList.update (kf e) (vf e) acc) [] zs) k"
  proof (cases "k \<in> kf ` set ys")
    case True
    then obtain e where e: "e \<in> set ys" "k = kf e" by auto
    from e assms have "e \<in> set zs" "inj_on kf (set zs)" by simp_all
    with e assms show ?thesis by (simp add: foldl_update_hit)
  next
    case False
    with assms show ?thesis by (simp add: foldl_update_other)
  qed
qed

lemma length_distinct_keys: "distinct (map fst al) \<Longrightarrow> length al = card (fst ` set al)"
  by (metis distinct_card length_map set_map)

lemma foldl_update_length_eq:
  assumes "set ys = set zs"
  shows "length (foldl (\<lambda>acc e. AList.update (kf e) (vf e) acc) [] ys) =
         length (foldl (\<lambda>acc e. AList.update (kf e) (vf e) acc) [] zs)"
  using assms
  by (simp add: length_distinct_keys foldl_update_distinct foldl_update_keys)

lemma foldl_update_set_eq:
  assumes "set ys = set zs" and "inj_on kf (set ys)"
  shows "set (foldl (\<lambda>acc e. AList.update (kf e) (vf e) acc) [] ys) =
         set (foldl (\<lambda>acc e. AList.update (kf e) (vf e) acc) [] zs)"
  using foldl_update_map_of_eq[OF assms, of vf]
  by (simp add: map_of_inject_set foldl_update_distinct)

lemma foldl_update_set:
  assumes "inj_on kf (set ys)"
  shows "set (foldl (\<lambda>acc e. AList.update (kf e) (vf e) acc) [] ys) = (\<lambda>e. (kf e, vf e)) ` set ys"
proof -
  let ?al = "foldl (\<lambda>acc e. AList.update (kf e) (vf e) acc) [] ys"
  have d: "distinct (map fst ?al)" by (simp add: foldl_update_distinct)
  show ?thesis
  proof (intro set_eqI iffI)
    fix x assume "x \<in> set ?al"
    then have m: "map_of ?al (fst x) = Some (snd x)" using d by simp
    have "fst x \<in> kf ` set ys" using \<open>x \<in> set ?al\<close> foldl_update_keys[of kf vf "[]" ys] by force
    then obtain e where e: "e \<in> set ys" "fst x = kf e" by auto
    with foldl_update_hit[OF e(1) assms, of vf "[]"] m have "snd x = vf e" by simp
    with e show "x \<in> (\<lambda>e. (kf e, vf e)) ` set ys" by (cases x) auto
  next
    fix x assume "x \<in> (\<lambda>e. (kf e, vf e)) ` set ys"
    then obtain e where e: "e \<in> set ys" "x = (kf e, vf e)" by auto
    from foldl_update_hit[OF e(1) assms, of vf "[]"] have "map_of ?al (kf e) = Some (vf e)" .
    then show "x \<in> set ?al" using e by (auto dest: map_of_SomeD)
  qed
qed
lemma set_update_fresh: "k \<notin> fst ` set al \<Longrightarrow> set (AList.update k v al) = insert (k, v) (set al)"
  by (induction al) auto

lemma indexes_of_alt:
  "indexes_of ord tr =
     foldl (\<lambda>acc e. AList.update (rootedName (fst e) (root tr)) (ident tr e) acc) []
       (range_map ord (names_tr tr))"
proof -
  have "(\<lambda>indexes (nm, j).
              let normName = rootedName nm (root tr);
                  indexes1 = AList.update normName j indexes
              in case map_of (dirData tr) nm of
                   Some d \<Rightarrow> AList.update normName (j + length (filesMeta tr)) indexes1
                 | None \<Rightarrow> indexes1)
        = (\<lambda>acc e. AList.update (rootedName (fst e) (root tr)) (ident tr e) acc)"
    by (auto simp: fun_eq_iff Let_def ident_def split: option.splits)
  then show ?thesis by (simp add: indexes_of_def)
qed

lemma subdir_of_alt:
  "subdir_of ord tr =
     foldl (\<lambda>acc e. AList.update (rootedName (fst e) (root tr))
               (files (snd e) @ map (\<lambda>v. v + length (filesMeta tr)) (subdirs (snd e))) acc) []
       (range_map ord (dirData tr))"
  by (simp add: subdir_of_def case_prod_unfold)

lemma idx2name_of_alt:
  "idx2name_of ord ix = foldl (\<lambda>acc e. AList.update (snd e) (fst e) acc) [] (range_map ord ix)"
  by (simp add: idx2name_of_def case_prod_unfold)

lemma ident_inj:
  assumes "names_inv tr"
  shows "inj_on (ident tr) (set (names_tr tr))"
proof (rule inj_onI)
  fix x y assume x: "x \<in> set (names_tr tr)" and y: "y \<in> set (names_tr tr)"
    and e: "ident tr x = ident tr y"
  obtain p v where xp: "x = (p, v)" by (cases x)
  obtain p' v' where yp: "y = (p', v')" by (cases y)
  have dom: "map_of (dirData tr) q = None \<longleftrightarrow> q \<notin> fst ` set (dirData tr)" for q
    by (simp add: map_of_eq_None_iff)
  from assms x y have b: "(p \<in> fst ` set (dirData tr) \<longrightarrow> v < length (dirMeta tr)) \<and>
          (p \<notin> fst ` set (dirData tr) \<longrightarrow> v < length (filesMeta tr))"
     "(p' \<in> fst ` set (dirData tr) \<longrightarrow> v' < length (dirMeta tr)) \<and>
          (p' \<notin> fst ` set (dirData tr) \<longrightarrow> v' < length (filesMeta tr))"
    unfolding names_inv_def xp yp by blast+
  from assms x y have u: "(p \<in> fst ` set (dirData tr) \<longleftrightarrow> p' \<in> fst ` set (dirData tr)) \<and> v = v' \<longrightarrow> p = p'"
    unfolding names_inv_def xp yp by blast
  have same: "(p \<in> fst ` set (dirData tr) \<longleftrightarrow> p' \<in> fst ` set (dirData tr)) \<and> v = v'"
    using e b dom[of p] dom[of p']
    by (cases "map_of (dirData tr) p"; cases "map_of (dirData tr) p'") (auto simp: ident_def xp yp)
  with u have "p = p'" by blast
  with same show "x = y" by (simp add: xp yp)
qed
lemma keys_update_present: "map_of al k = Some v \<Longrightarrow> fst ` set (AList.update k v' al) = fst ` set al"
  by (auto simp: dom_update dest: map_of_SomeD intro: rev_image_eqI)

lemma walkFunc_names:
  assumes "walkFunc tr p info err c = Inr tr'"
  shows "names_tr tr' =
           AList.update p (if IsDir info then length (dirMeta tr) else length (filesMeta tr)) (names_tr tr)"
    and "fst ` set (dirData tr') =
           (if IsDir info then insert p (fst ` set (dirData tr)) else fst ` set (dirData tr))"
    and "distinct (map fst (dirData tr)) \<Longrightarrow> distinct (map fst (dirData tr'))"
proof -
  show "names_tr tr' =
           AList.update p (if IsDir info then length (dirMeta tr) else length (filesMeta tr)) (names_tr tr)"
    using assms by (auto simp: walkFunc_def Let_def split: option.splits sum.splits if_splits)
  show "fst ` set (dirData tr') =
           (if IsDir info then insert p (fst ` set (dirData tr)) else fst ` set (dirData tr))"
  proof (cases "IsDir info")
    case True
    let ?d1 = "AList.update p \<lparr>files = [], subdirs = []\<rparr> (dirData tr)"
    have k1: "fst ` set ?d1 = insert p (fst ` set (dirData tr))" by (simp add: dom_update)
    show ?thesis
    proof (cases "map_of ?d1 (filepath_Dir p)")
      case None
      with assms True have "dirData tr' = ?d1"
        by (auto simp: walkFunc_def Let_def split: option.splits)
      with k1 True show ?thesis by simp
    next
      case (Some d)
      from keys_update_present[OF Some] k1
      have "fst ` set (AList.update (filepath_Dir p) (d\<lparr>subdirs := subdirs d @ [length (dirMeta tr)]\<rparr>) ?d1)
          = insert p (fst ` set (dirData tr))" by simp
      moreover from assms True Some have "dirData tr' =
          AList.update (filepath_Dir p) (d\<lparr>subdirs := subdirs d @ [length (dirMeta tr)]\<rparr>) ?d1"
        by (auto simp: walkFunc_def Let_def split: option.splits)
      ultimately show ?thesis using True by simp
    qed
  next
    case False
    show ?thesis
    proof (cases "map_of (dirData tr) (filepath_Dir p)")
      case None
      with assms False have "dirData tr' = dirData tr"
        by (auto simp: walkFunc_def Let_def split: option.splits sum.splits if_splits)
      with False show ?thesis by simp
    next
      case (Some d)
      from keys_update_present[OF Some]
      have "fst ` set (AList.update (filepath_Dir p) (d\<lparr>files := files d @ [length (filesMeta tr)]\<rparr>) (dirData tr))
          = fst ` set (dirData tr)" by simp
      moreover from assms False Some have "dirData tr' =
          AList.update (filepath_Dir p) (d\<lparr>files := files d @ [length (filesMeta tr)]\<rparr>) (dirData tr)"
        by (auto simp: walkFunc_def Let_def split: option.splits sum.splits if_splits)
      ultimately show ?thesis using False by simp
    qed
  qed
  show "distinct (map fst (dirData tr)) \<Longrightarrow> distinct (map fst (dirData tr'))"
    using assms
    by (auto simp: walkFunc_def Let_def distinct_update split: option.splits sum.splits if_splits)
qed

lemma walkFunc_names_inv:
  assumes w: "walkFunc tr p info err c = Inr tr'" and inv: "names_inv tr"
    and fresh: "p \<notin> fst ` set (names_tr tr)"
  shows "names_inv tr'" and "fst ` set (names_tr tr') = insert p (fst ` set (names_tr tr))"
proof -
  let ?K = "fst ` set (dirData tr)"
  from inv have d: "distinct (map fst (names_tr tr))" "distinct (map fst (dirData tr))"
    and sub: "?K \<subseteq> fst ` set (names_tr tr)"
    and b: "\<And>q v. (q, v) \<in> set (names_tr tr) \<Longrightarrow>
          (q \<in> ?K \<longrightarrow> v < length (dirMeta tr)) \<and> (q \<notin> ?K \<longrightarrow> v < length (filesMeta tr))"
    and u: "\<And>q v q' v'. (q, v) \<in> set (names_tr tr) \<Longrightarrow> (q', v') \<in> set (names_tr tr) \<Longrightarrow>
          (q \<in> ?K \<longleftrightarrow> q' \<in> ?K) \<Longrightarrow> v = v' \<Longrightarrow> q = q'"
    unfolding names_inv_def by (blast+)
  from fresh sub have pK: "p \<notin> ?K" by blast
  note n = walkFunc_names[OF w]
  have nset: "set (names_tr tr') =
      insert (p, if IsDir info then length (dirMeta tr) else length (filesMeta tr)) (set (names_tr tr))"
    by (simp add: n(1) set_update_fresh[OF fresh])
  show keys: "fst ` set (names_tr tr') = insert p (fst ` set (names_tr tr))"
    by (simp add: nset)
  have d': "distinct (map fst (names_tr tr'))" "distinct (map fst (dirData tr'))"
    using d n(3) by (simp_all add: n(1) distinct_update)
  have pfresh: "(p, v) \<notin> set (names_tr tr)" for v using fresh by force
  show "names_inv tr'"
  proof (cases "IsDir info")
    case True
    from walkFunc_dir[OF w True] have m: "filesMeta tr' = filesMeta tr" "dirMeta tr' = dirMeta tr @ [info]"
      by simp_all
    have K': "fst ` set (dirData tr') = insert p ?K" using n(2) True by simp
    have ns: "set (names_tr tr') = insert (p, length (dirMeta tr)) (set (names_tr tr))"
      using nset True by simp
    show ?thesis
      unfolding names_inv_def
    proof (intro conjI)
      show "distinct (map fst (names_tr tr'))" "distinct (map fst (dirData tr'))" by (rule d')+
      show "fst ` set (dirData tr') \<subseteq> fst ` set (names_tr tr')" using sub K' keys by auto
      show "\<forall>(q, v)\<in>set (names_tr tr').
          (q \<in> fst ` set (dirData tr') \<longrightarrow> v < length (dirMeta tr')) \<and>
          (q \<notin> fst ` set (dirData tr') \<longrightarrow> v < length (filesMeta tr'))"
        using b pfresh by (auto simp: ns K' m less_Suc_eq)
      show "\<forall>(q, v)\<in>set (names_tr tr'). \<forall>(q', v')\<in>set (names_tr tr').
          (q \<in> fst ` set (dirData tr') \<longleftrightarrow> q' \<in> fst ` set (dirData tr')) \<and> v = v' \<longrightarrow> q = q'"
      proof (clarify)
        fix q v q' v'
        assume a: "(q, v) \<in> set (names_tr tr')" "(q', v) \<in> set (names_tr tr')"
          "(q \<in> fst ` set (dirData tr')) = (q' \<in> fst ` set (dirData tr'))"
        show "q = q'"
        proof (cases "q = p")
          case qp: True
          show ?thesis
          proof (cases "q' = p")
            case True with qp show ?thesis by simp
          next
            case False
            with a(2) ns have o: "(q', v) \<in> set (names_tr tr)" by auto
            from a(1) qp ns pfresh have "v = length (dirMeta tr)" by auto
            moreover from a(3) qp K' False have "q' \<in> ?K" by auto
            ultimately show ?thesis using b[OF o] by simp
          qed
        next
          case qp: False
          with a(1) ns have o: "(q, v) \<in> set (names_tr tr)" by auto
          show ?thesis
          proof (cases "q' = p")
            case True
            from a(2) True ns pfresh have "v = length (dirMeta tr)" by auto
            moreover from a(3) True K' qp have "q \<in> ?K" by auto
            ultimately show ?thesis using b[OF o] by simp
          next
            case False
            with a(2) ns have o': "(q', v) \<in> set (names_tr tr)" by auto
            from a(3) K' qp False have "(q \<in> ?K) = (q' \<in> ?K)" by auto
            with u[OF o o'] show ?thesis by simp
          qed
        qed
      qed
    qed
  next
    case False
    from walkFunc_file[OF w False] have m: "filesMeta tr' = filesMeta tr @ [info]" "dirMeta tr' = dirMeta tr"
      by simp_all
    have K': "fst ` set (dirData tr') = ?K" using n(2) False by simp
    have ns: "set (names_tr tr') = insert (p, length (filesMeta tr)) (set (names_tr tr))"
      using nset False by simp
    show ?thesis
      unfolding names_inv_def
    proof (intro conjI)
      show "distinct (map fst (names_tr tr'))" "distinct (map fst (dirData tr'))" by (rule d')+
      show "fst ` set (dirData tr') \<subseteq> fst ` set (names_tr tr')" using sub K' keys by auto
      show "\<forall>(q, v)\<in>set (names_tr tr').
          (q \<in> fst ` set (dirData tr') \<longrightarrow> v < length (dirMeta tr')) \<and>
          (q \<notin> fst ` set (dirData tr') \<longrightarrow> v < length (filesMeta tr'))"
        using b pfresh pK by (auto simp: ns K' m less_Suc_eq)
      show "\<forall>(q, v)\<in>set (names_tr tr'). \<forall>(q', v')\<in>set (names_tr tr').
          (q \<in> fst ` set (dirData tr') \<longleftrightarrow> q' \<in> fst ` set (dirData tr')) \<and> v = v' \<longrightarrow> q = q'"
      proof (clarify)
        fix q v q' v'
        assume a: "(q, v) \<in> set (names_tr tr')" "(q', v) \<in> set (names_tr tr')"
          "(q \<in> fst ` set (dirData tr')) = (q' \<in> fst ` set (dirData tr'))"
        show "q = q'"
        proof (cases "q = p")
          case qp: True
          show ?thesis
          proof (cases "q' = p")
            case True with qp show ?thesis by simp
          next
            case False
            with a(2) ns have o: "(q', v) \<in> set (names_tr tr)" by auto
            from a(1) qp ns pfresh have "v = length (filesMeta tr)" by auto
            moreover from a(3) qp K' pK have "q' \<notin> ?K" by auto
            ultimately show ?thesis using b[OF o] by simp
          qed
        next
          case qp: False
          with a(1) ns have o: "(q, v) \<in> set (names_tr tr)" by auto
          show ?thesis
          proof (cases "q' = p")
            case True
            from a(2) True ns pfresh have "v = length (filesMeta tr)" by auto
            moreover from a(3) True K' pK have "q \<notin> ?K" by auto
            ultimately show ?thesis using b[OF o] by simp
          next
            case False
            with a(2) ns have o': "(q', v) \<in> set (names_tr tr)" by auto
            from a(3) K' have "(q \<in> ?K) = (q' \<in> ?K)" by auto
            with u[OF o o'] show ?thesis by simp
          qed
        qed
      qed
    qed
  qed
qed

lemma run_names_inv:
  "run tr vs = Inr tr' \<Longrightarrow> names_inv tr \<Longrightarrow> distinct (map vpath vs) \<Longrightarrow>
   vpath ` set vs \<inter> fst ` set (names_tr tr) = {} \<Longrightarrow>
   names_inv tr' \<and> fst ` set (names_tr tr') = fst ` set (names_tr tr) \<union> vpath ` set vs"
proof (induction vs arbitrary: tr)
  case Nil
  then show ?case by simp
next
  case (Cons v vs)
  from Cons.prems(1) obtain tr1 where
    s: "walkFunc tr (vpath v) (vinfo v) (verr v) (vread v) = Inr tr1" and r: "run tr1 vs = Inr tr'"
    by (auto split: sum.splits)
  from Cons.prems(4) have fresh: "vpath v \<notin> fst ` set (names_tr tr)" by auto
  note st = walkFunc_names_inv[OF s Cons.prems(2) fresh]
  from Cons.prems(3) have d: "distinct (map vpath vs)" and nv: "vpath v \<notin> vpath ` set vs" by auto
  from Cons.prems(4) nv st(2) have dj: "vpath ` set vs \<inter> fst ` set (names_tr tr1) = {}" by auto
  from Cons.IH[OF r st(1) d dj] st(2) show ?case by auto
qed

lemma new_tree_names_inv: "names_inv (new_tree dir)"
  by (simp add: names_inv_def new_tree_def)
lemma inj_on_key_fun:
  assumes "distinct (map fst al)" and "inj_on f (fst ` set al)"
  shows "inj_on (\<lambda>e. f (fst e)) (set al)"
proof (rule inj_onI)
  fix x y assume x: "x \<in> set al" and y: "y \<in> set al" and e: "f (fst x) = f (fst y)"
  from assms(2) x y e have "fst x = fst y" by (auto simp: inj_on_def)
  moreover from assms(1) have "inj_on fst (set al)" by (simp add: distinct_map)
  ultimately show "x = y" using x y by (auto simp: inj_on_def)
qed

lemma lookup0_cong: "map_of m = map_of m' \<Longrightarrow> lookup0 m z = lookup0 m' z"
  by (simp add: lookup0_def fun_eq_iff)

lemma writeMetadata_order_irrelevant:
  assumes inv: "names_inv tr"
    and inj: "inj_on (\<lambda>p. rootedName p (root tr)) (fst ` set (names_tr tr))"
    and v: "valid_orders os" and v': "valid_orders os'"
  shows "writeMetadata os tr = writeMetadata os' tr"
proof -
  let ?kf = "\<lambda>e :: string \<times> nat. rootedName (fst e) (root tr)"
  let ?ix = "indexes_of (ord_names os) tr" and ?ix' = "indexes_of (ord_names os') tr"
  let ?sd = "subdir_of (ord_dirData os) tr" and ?sd' = "subdir_of (ord_dirData os') tr"
  let ?i2n = "idx2name_of (ord_indexes os) ?ix" and ?i2n' = "idx2name_of (ord_indexes os') ?ix'"
  from inv have dn: "distinct (map fst (names_tr tr))" and dd: "distinct (map fst (dirData tr))"
    and sub: "fst ` set (dirData tr) \<subseteq> fst ` set (names_tr tr)"
    by (simp_all add: names_inv_def)
  from v v' have vo: "valid_order (ord_names os)" "valid_order (ord_dirData os)" "valid_order (ord_indexes os)"
    "valid_order (ord_names os')" "valid_order (ord_dirData os')" "valid_order (ord_indexes os')"
    by (simp_all add: valid_orders_def)
  have sn: "set (range_map (ord_names os) (names_tr tr)) = set (names_tr tr)"
    "set (range_map (ord_names os') (names_tr tr)) = set (names_tr tr)"
    using vo by (simp_all add: set_range_map)
  have injn: "inj_on ?kf (set (names_tr tr))" using dn inj by (rule inj_on_key_fun)
  have ix_set: "set ?ix = (\<lambda>e. (?kf e, ident tr e)) ` set (names_tr tr)"
    "set ?ix' = (\<lambda>e. (?kf e, ident tr e)) ` set (names_tr tr)"
    using foldl_update_set[of ?kf "range_map (ord_names os) (names_tr tr)" "ident tr"]
      foldl_update_set[of ?kf "range_map (ord_names os') (names_tr tr)" "ident tr"] injn
    by (simp_all add: indexes_of_alt sn)
  have ix_len: "length ?ix = length ?ix'"
    unfolding indexes_of_alt by (rule foldl_update_length_eq) (simp add: sn)
  have injd: "inj_on (\<lambda>e :: string \<times> dirInfo. rootedName (fst e) (root tr)) (set (dirData tr))"
    using dd by (rule inj_on_key_fun) (rule inj_on_subset[OF inj sub])
  have sd: "map_of ?sd = map_of ?sd'"
    unfolding subdir_of_alt
    by (rule foldl_update_map_of_eq) (use vo injd in \<open>simp_all add: set_range_map\<close>)
  have inj_snd: "inj_on snd (set ?ix)"
  proof (rule inj_onI)
    fix x y assume "x \<in> set ?ix" "y \<in> set ?ix" "snd x = snd y"
    then obtain e e' where e: "e \<in> set (names_tr tr)" "x = (?kf e, ident tr e)"
      and e': "e' \<in> set (names_tr tr)" "y = (?kf e', ident tr e')" and "ident tr e = ident tr e'"
      by (auto simp: ix_set)
    with ident_inj[OF inv] have "e = e'" by (auto simp: inj_on_def)
    with e e' show "x = y" by simp
  qed
  have i2n: "map_of ?i2n = map_of ?i2n'"
    unfolding idx2name_of_alt
    by (rule foldl_update_map_of_eq) (use vo inj_snd ix_set in \<open>simp_all add: set_range_map\<close>)
  have l1: "lookup0 ?sd [] = lookup0 ?sd' []" using sd by (rule lookup0_cong)
  have l2: "lookup0 ?i2n [] = lookup0 ?i2n' []" using i2n by (rule lookup0_cong)
  have "meta_item ?sd ?i2n = meta_item ?sd' ?i2n'"
    by (simp add: fun_eq_iff meta_item_def l1 l2)
  then show ?thesis
    by (simp add: writeMetadata_def Let_def ix_len l2)
qed

lemma writeSection_order_irrelevant:
  assumes "rooted_distinct dir t" and "valid_orders os" and "valid_orders os'"
  shows "writeSection os dir t = writeSection os' dir t"
proof (cases "run (new_tree dir) (visits dir t)")
  case (Inl e)
  then show ?thesis by (simp add: writeSection_def Walk_def)
next
  case (Inr tr)
  from assms(1) have dm: "distinct (map (\<lambda>p. rootedName p dir) (map vpath (visits dir t)))"
    by (simp add: rooted_distinct_def o_def)
  then have "distinct (map vpath (visits dir t)) \<and>
      inj_on (\<lambda>p. rootedName p dir) (set (map vpath (visits dir t)))"
    by (rule distinct_map[THEN iffD1])
  then have d: "distinct (map vpath (visits dir t))"
    and i: "inj_on (\<lambda>p. rootedName p dir) (vpath ` set (visits dir t))"
    by simp_all
  from run_names_inv[OF Inr new_tree_names_inv d]
  have inv: "names_inv tr" and k: "fst ` set (names_tr tr) = vpath ` set (visits dir t)"
    by (simp_all add: new_tree_def)
  from run_result[OF Inr] have r: "root tr = dir" by (simp add: new_tree_def)
  have "writeMetadata os tr = writeMetadata os' tr"
    using inv _ assms(2,3) by (rule writeMetadata_order_irrelevant) (simp add: r k i)
  with Inr show ?thesis by (simp add: writeSection_def Walk_def)
qed

section \<open>The paths of the walk\<close>

lemma split_slash_append:
  "CHR ''/'' \<notin> set e \<Longrightarrow> split_slash acc (e @ r) = split_slash (acc @ e) r"
proof (induction e arbitrary: acc)
  case Nil
  then show ?case by simp
next
  case (Cons a e)
  then have "a \<noteq> CHR ''/''" and "CHR ''/'' \<notin> set e" by auto
  with Cons.IH[of "acc @ [a]"] show ?case by simp
qed

lemma split_slash_plain: "CHR ''/'' \<notin> set e \<Longrightarrow> split_slash acc e = [acc @ e]"
  using split_slash_append[of e acc "[]"] by simp

lemma split_slash_join:
  "list_all plain (e # es) \<Longrightarrow> split_slash acc (join_slash (e # es)) = (acc @ e) # es"
proof (induction es arbitrary: acc e)
  case Nil
  then show ?case by (simp add: plain_def split_slash_plain)
next
  case (Cons e' es)
  from Cons.prems have "plain e" and r: "list_all plain (e' # es)" by simp_all
  then have e: "CHR ''/'' \<notin> set e" by (simp add: plain_def)
  have "split_slash acc (join_slash (e # e' # es)) = split_slash (acc @ e) (CHR ''/'' # join_slash (e' # es))"
    using split_slash_append[OF e, of acc "CHR ''/'' # join_slash (e' # es)"] by simp
  also have "\<dots> = (acc @ e) # split_slash [] (join_slash (e' # es))" by simp
  also have "\<dots> = (acc @ e) # e' # es" using Cons.IH[OF r, of "[]"] by simp
  finally show ?case .
qed

lemma clean_elems_plain:
  "list_all plain es \<Longrightarrow> clean_elems rooted dd st es = dd @ rev st @ es"
  by (induction es arbitrary: st) (auto simp: plain_def)

lemma join_slash_append:
  "xs \<noteq> [] \<Longrightarrow> ys \<noteq> [] \<Longrightarrow> join_slash (xs @ ys) = join_slash xs @ ''/'' @ join_slash ys"
proof (induction xs rule: join_slash.induct)
  case 1
  then show ?case by simp
next
  case (2 e)
  then show ?case by (cases ys) simp_all
next
  case (3 e v va)
  then show ?case by simp
qed

lemma join_slash_nonempty: "list_all plain es \<Longrightarrow> es \<noteq> [] \<Longrightarrow> join_slash es \<noteq> []"
  by (cases es rule: join_slash.cases) (auto simp: plain_def)

lemma plain_hd: "plain e \<Longrightarrow> hd e \<noteq> CHR ''/''"
  unfolding plain_def using hd_in_set[of e] by metis

lemma join_slash_hd: "list_all plain es \<Longrightarrow> es \<noteq> [] \<Longrightarrow> hd (join_slash es) \<noteq> CHR ''/''"
proof (cases es rule: join_slash.cases)
  case 1
  assume "es \<noteq> []" with 1 show ?thesis by simp
next
  case (2 e)
  assume "list_all plain es" with 2 show ?thesis by (simp add: plain_hd)
next
  case (3 e v va)
  assume "list_all plain es"
  with 3 have "plain e" by simp
  then have "hd e \<noteq> CHR ''/''" "e \<noteq> []" by (simp_all add: plain_hd plain_def)
  with 3 show ?thesis by (simp add: hd_append)
qed

lemma Clean_join_slash:
  assumes "list_all plain es" and "es \<noteq> []"
  shows "Clean (join_slash es) = join_slash es"
proof -
  obtain e es' where es: "es = e # es'" using assms(2) by (cases es) auto
  have s: "split_slash [] (join_slash es) = es"
    using split_slash_join[of e es' "[]"] assms(1) by (simp add: es)
  show ?thesis
    using join_slash_nonempty[OF assms] join_slash_hd[OF assms] assms(1)
    by (simp add: Clean_def s clean_elems_plain)
qed

lemma filepath_Join_plain:
  assumes "list_all plain res" and "res \<noteq> []" and "plain n"
  shows "filepath_Join (join_slash res) n = join_slash (res @ [n])"
proof -
  have "join_slash res @ ''/'' @ n = join_slash (res @ [n])"
    using join_slash_append[of res "[n]"] assms(2) by simp
  then show ?thesis
    using Clean_join_slash[of "res @ [n]"] assms by (simp add: filepath_Join_def)
qed

lemma upto_last_slash_append:
  "CHR ''/'' \<notin> set n \<Longrightarrow> upto_last_slash (p @ CHR ''/'' # n) = p @ ''/''"
  by (induction p) simp_all

lemma split_slash_trailing:
  "list_all plain (e # es) \<Longrightarrow> split_slash acc (join_slash (e # es) @ ''/'') = (acc @ e) # es @ [[]]"
proof (induction es arbitrary: acc e)
  case Nil
  then have e: "CHR ''/'' \<notin> set e" by (simp add: plain_def)
  show ?case using split_slash_append[OF e, of acc "''/''"] by simp
next
  case (Cons e' es)
  from Cons.prems have "plain e" and r: "list_all plain (e' # es)" by simp_all
  then have e: "CHR ''/'' \<notin> set e" by (simp add: plain_def)
  have "split_slash acc (join_slash (e # e' # es) @ ''/'')
      = split_slash (acc @ e) (CHR ''/'' # join_slash (e' # es) @ ''/'')"
    using split_slash_append[OF e, of acc "CHR ''/'' # join_slash (e' # es) @ ''/''"] by simp
  also have "\<dots> = (acc @ e) # split_slash [] (join_slash (e' # es) @ ''/'')" by simp
  also have "\<dots> = (acc @ e) # e' # es @ [[]]" using Cons.IH[OF r, of "[]"] by simp
  finally show ?case by simp
qed

lemma clean_elems_plain_trailing:
  "list_all plain es \<Longrightarrow> clean_elems rooted dd st (es @ [[]]) = dd @ rev st @ es"
  by (induction es arbitrary: st) (auto simp: plain_def)

lemma filepath_Dir_plain:
  assumes "list_all plain res" and "res \<noteq> []" and "plain n"
  shows "filepath_Dir (join_slash (res @ [n])) = join_slash res"
proof -
  obtain e es' where es: "res = e # es'" using assms(2) by (cases res) auto
  have j: "join_slash (res @ [n]) = join_slash res @ CHR ''/'' # n"
    using join_slash_append[of res "[n]"] assms(2) by simp
  have u: "upto_last_slash (join_slash (res @ [n])) = join_slash res @ ''/''"
    using assms(3) by (simp add: j upto_last_slash_append plain_def)
  have s: "split_slash [] (join_slash res @ ''/'') = res @ [[]]"
    using split_slash_trailing[of e es' "[]"] assms(1) by (simp add: es)
  have ne: "join_slash res \<noteq> []" using assms by (simp add: join_slash_nonempty)
  have h: "hd (join_slash res @ ''/'') \<noteq> CHR ''/''"
    using join_slash_hd[OF assms(1,2)] ne by (simp add: hd_append)
  show ?thesis
    using ne h assms(1) by (simp add: filepath_Dir_def u Clean_def s clean_elems_plain_trailing)
qed

lemma upto_last_slash_none: "CHR ''/'' \<notin> set n \<Longrightarrow> upto_last_slash n = []"
  by (induction n) auto

lemma filepath_Dir_single: "plain n \<Longrightarrow> filepath_Dir n = ''.''"
  by (simp add: filepath_Dir_def Clean_def upto_last_slash_none plain_def)

lemma split_slash_join_id:
  "list_all plain es \<Longrightarrow> es \<noteq> [] \<Longrightarrow> split_slash [] (join_slash es) = es"
  using split_slash_join[of "hd es" "tl es" "[]"] by (cases es) simp_all

lemma join_slash_inj:
  assumes "list_all plain xs" and "list_all plain ys" and "join_slash xs = join_slash ys"
  shows "xs = ys"
proof (cases "xs = [] \<or> ys = []")
  case True
  then show ?thesis
    using assms join_slash_nonempty[of xs] join_slash_nonempty[of ys] by (metis join_slash.simps(1))
next
  case False
  then have "split_slash [] (join_slash xs) = xs" "split_slash [] (join_slash ys) = ys"
    using assms(1,2) by (simp_all add: split_slash_join_id)
  with assms(3) show ?thesis by metis
qed

lemma visits_paths:
  "wf_tree t \<Longrightarrow> list_all plain res \<Longrightarrow> res \<noteq> [] \<Longrightarrow>
   map vpath (visits (join_slash res) t) = map (\<lambda>ns. join_slash (res @ ns)) (chains t)"
proof (induction t arbitrary: res)
  case (FsDir st es)
  have "concat (map (\<lambda>e. map vpath (visits (filepath_Join (join_slash res) (node_name e)) e)) es') =
        concat (map (\<lambda>e. map (\<lambda>ns. join_slash (res @ ns)) (map ((#) (node_name e)) (chains e))) es')"
    if "set es' \<subseteq> set es" for es'
    using that
  proof (induction es')
    case Nil
    then show ?case by simp
  next
    case (Cons e es')
    then have e: "e \<in> set es" by simp
    with FsDir.prems(1) have pl: "plain (node_name e)" and wf: "wf_tree e"
      by (simp_all add: list_all_iff)
    have j: "filepath_Join (join_slash res) (node_name e) = join_slash (res @ [node_name e])"
      using FsDir.prems(2,3) pl by (rule filepath_Join_plain)
    have "map vpath (visits (join_slash (res @ [node_name e])) e) =
          map (\<lambda>ns. join_slash ((res @ [node_name e]) @ ns)) (chains e)"
      using e wf by (rule FsDir.IH) (use FsDir.prems(2) pl in simp_all)
    with Cons j show ?case by (simp add: o_def)
  qed
  from this[of "sort_key node_name es"] show ?case by (simp add: map_concat o_def)
qed simp_all

lemma chains_plain: "wf_tree t \<Longrightarrow> list_all (list_all plain) (chains t)"
proof (induction t)
  case (FsDir st es)
  have "list_all (list_all plain) (concat (map (\<lambda>e. map ((#) (node_name e)) (chains e)) es'))"
    if "set es' \<subseteq> set es" for es'
    using that
  proof (induction es')
    case Nil
    then show ?case by simp
  next
    case (Cons e es')
    then have e: "e \<in> set es" by simp
    with FsDir.prems have pl: "plain (node_name e)" and wf: "wf_tree e"
      by (simp_all add: list_all_iff)
    from FsDir.IH[OF e wf] pl Cons show ?case by (auto simp: list_all_iff)
  qed
  from this[of "sort_key node_name es"] show ?case by simp
qed simp_all

lemma distinct_concat_heads:
  "distinct (map g es) \<Longrightarrow> (\<And>e. e \<in> set es \<Longrightarrow> distinct (h e)) \<Longrightarrow>
   distinct (concat (map (\<lambda>e. map ((#) (g e)) (h e)) es))"
proof (induction es)
  case Nil
  then show ?case by simp
next
  case (Cons e es)
  have "distinct (map ((#) (g e)) (h e))" using Cons.prems(2)[of e] by (simp add: distinct_map)
  moreover have "distinct (concat (map (\<lambda>e. map ((#) (g e)) (h e)) es))"
    using Cons by simp
  moreover have "set (map ((#) (g e)) (h e)) \<inter> set (concat (map (\<lambda>e. map ((#) (g e)) (h e)) es)) = {}"
    using Cons.prems(1) by auto
  ultimately show ?case by simp
qed

lemma chains_distinct: "wf_tree t \<Longrightarrow> distinct (chains t)"
proof (induction t)
  case (FsDir st es)
  let ?es = "sort_key node_name es"
  from FsDir.prems have "distinct (map node_name es)" by simp
  then have d: "distinct (map node_name ?es)"
    by (simp add: distinct_map)
  have "distinct (concat (map (\<lambda>e. map ((#) (node_name e)) (chains e)) ?es))"
    using d
  proof (rule distinct_concat_heads)
    fix e assume "e \<in> set ?es"
    then have e: "e \<in> set es" by simp
    with FsDir.prems have "wf_tree e" by (simp add: list_all_iff)
    with e show "distinct (chains e)" by (rule FsDir.IH)
  qed
  then show ?case by auto
qed simp_all

lemma rootedName_join:
  assumes "list_all plain res" and "res \<noteq> []" and "list_all plain ns"
  shows "rootedName (join_slash (res @ ns)) (join_slash res) =
           (if ns = [] then ''/'' else CHR ''/'' # join_slash ns)"
proof (cases "ns = []")
  case True
  then show ?thesis by (simp add: rootedName_def TrimPrefix_def)
next
  case False
  then have "join_slash (res @ ns) = join_slash res @ CHR ''/'' # join_slash ns"
    using join_slash_append[of res ns] assms(2) by simp
  with False show ?thesis by (simp add: rootedName_def TrimPrefix_def)
qed

lemma simple_root_rooted_distinct:
  assumes "simple_root dir" and "wf_tree t"
  shows "rooted_distinct dir t"
proof -
  from assms(1) obtain res where res: "res \<noteq> []" "list_all plain res" "dir = join_slash res"
    by (auto simp: simple_root_def)
  let ?r = "\<lambda>ns. if ns = [] then ''/'' else CHR ''/'' # join_slash ns"
  have pl: "list_all (list_all plain) (chains t)" using assms(2) by (rule chains_plain)
  have "map (\<lambda>v. rootedName (vpath v) dir) (visits dir t) =
        map (\<lambda>p. rootedName p dir) (map vpath (visits dir t))" by (simp add: o_def)
  also have "\<dots> = map (\<lambda>p. rootedName p dir) (map (\<lambda>ns. join_slash (res @ ns)) (chains t))"
    using visits_paths[OF assms(2) res(2,1)] by (simp add: res(3))
  also have "\<dots> = map ?r (chains t)"
    using pl rootedName_join[OF res(2,1)] by (simp add: res(3) list_all_iff)
  finally have eq: "map (\<lambda>v. rootedName (vpath v) dir) (visits dir t) = map ?r (chains t)" .
  have "inj_on ?r (set (chains t))"
  proof (rule inj_onI)
    fix xs ys assume x: "xs \<in> set (chains t)" and y: "ys \<in> set (chains t)" and e: "?r xs = ?r ys"
    from pl x y have px: "list_all plain xs" and py: "list_all plain ys" by (simp_all add: list_all_iff)
    show "xs = ys"
    proof (cases "xs = []")
      case True
      with e py show ?thesis using join_slash_nonempty[of ys] by (auto split: if_splits)
    next
      case False
      with e px have "ys \<noteq> []" using join_slash_nonempty[of xs] by (auto split: if_splits)
      with False e have "join_slash xs = join_slash ys" by simp
      with px py show ?thesis by (rule join_slash_inj)
    qed
  qed
  with chains_distinct[OF assms(2)] have "distinct (map ?r (chains t))" by (simp add: distinct_map)
  with eq show ?thesis by (simp add: rooted_distinct_def)
qed

text \<open>
  For a root given as a relative path of plain names and a tree whose directories hold
  plain names, each once, the literal does not depend on the order in which the three
  maps are ranged over.
\<close>

lemma build_deterministic:
  assumes "simple_root dir" and "wf_tree t" and "valid_orders os" and "valid_orders os'"
  shows "writeSection os dir t = writeSection os' dir t"
  using simple_root_rooted_distinct[OF assms(1,2)] assms(3,4) by (rule writeSection_order_irrelevant)

section \<open>The entries of a directory and its children\<close>

lemma map_of_update_other: "k' \<noteq> k \<Longrightarrow> map_of (AList.update k v al) k' = map_of al k'"
  by (simp add: update_conv')

lemma walkFunc_dirData_at:
  assumes w: "walkFunc tr p info err c = Inr tr'"
    and q: "\<not> (IsDir info \<and> p = q)"
  shows "map_of (dirData tr') q =
     (case map_of (dirData tr) q of
        None \<Rightarrow> None
      | Some d \<Rightarrow>
          Some (if filepath_Dir p = q then
                  (if IsDir info then d\<lparr>subdirs := subdirs d @ [length (dirMeta tr)]\<rparr>
                   else d\<lparr>files := files d @ [length (filesMeta tr)]\<rparr>)
                else d))"
proof (cases "IsDir info")
  case True
  with q have pq: "p \<noteq> q" by simp
  let ?d1 = "AList.update p \<lparr>files = [], subdirs = []\<rparr> (dirData tr)"
  have m1: "map_of ?d1 q = map_of (dirData tr) q" using pq by (simp add: update_conv')
  show ?thesis
  proof (cases "map_of ?d1 (filepath_Dir p)")
    case None
    with w True have "dirData tr' = ?d1"
      by (auto simp: walkFunc_def Let_def split: option.splits)
    moreover from None m1 have "filepath_Dir p = q \<Longrightarrow> map_of (dirData tr) q = None" by auto
    ultimately show ?thesis using m1 by (auto split: option.splits)
  next
    case (Some d)
    with w True have e: "dirData tr' =
        AList.update (filepath_Dir p) (d\<lparr>subdirs := subdirs d @ [length (dirMeta tr)]\<rparr>) ?d1"
      by (auto simp: walkFunc_def Let_def split: option.splits)
    show ?thesis
    proof (cases "filepath_Dir p = q")
      case True
      with Some m1 have "map_of (dirData tr) q = Some d" by simp
      with True \<open>IsDir info\<close> show ?thesis by (simp add: e update_conv')
    next
      case False
      then show ?thesis using m1 by (auto simp: e update_conv' split: option.splits)
    qed
  qed
next
  case False
  show ?thesis
  proof (cases "map_of (dirData tr) (filepath_Dir p)")
    case None
    with w False have "dirData tr' = dirData tr"
      by (auto simp: walkFunc_def Let_def split: option.splits sum.splits if_splits)
    with None show ?thesis by (auto split: option.splits)
  next
    case (Some d)
    with w False have e: "dirData tr' =
        AList.update (filepath_Dir p) (d\<lparr>files := files d @ [length (filesMeta tr)]\<rparr>) (dirData tr)"
      by (auto simp: walkFunc_def Let_def split: option.splits sum.splits if_splits)
    show ?thesis
    proof (cases "filepath_Dir p = q")
      case True
      with Some False show ?thesis by (simp add: e update_conv')
    next
      case False
      then show ?thesis by (auto simp: e update_conv' split: option.splits)
    qed
  qed
qed

lemma run_dirData_accum:
  "run tr vs = Inr tr' \<Longrightarrow> q \<notin> vpath ` set (dir_visits vs) \<Longrightarrow>
   map_of (dirData tr') q =
     (case map_of (dirData tr) q of
        None \<Rightarrow> None
      | Some d \<Rightarrow> Some \<lparr>files = files d @ acc_files q vs (length (filesMeta tr)),
                        subdirs = subdirs d @ acc_dirs q vs (length (dirMeta tr))\<rparr>)"
proof (induction vs arbitrary: tr)
  case Nil
  then show ?case by (auto split: option.splits)
next
  case (Cons v vs)
  from Cons.prems(1) obtain tr1 where
    s: "walkFunc tr (vpath v) (vinfo v) (verr v) (vread v) = Inr tr1" and r: "run tr1 vs = Inr tr'"
    by (auto split: sum.splits)
  from Cons.prems(2) have nq: "\<not> (IsDir (vinfo v) \<and> vpath v = q)"
    and q': "q \<notin> vpath ` set (dir_visits vs)"
    by (auto simp: dir_visits_def)
  note a = walkFunc_dirData_at[OF s nq]
  note ih = Cons.IH[OF r q']
  show ?case
  proof (cases "IsDir (vinfo v)")
    case True
    from walkFunc_dir[OF s True] have m: "filesMeta tr1 = filesMeta tr" "dirMeta tr1 = dirMeta tr @ [vinfo v]"
      by simp_all
    show ?thesis using True by (auto simp: ih a m split: option.splits)
  next
    case False
    from walkFunc_file[OF s False] have m: "filesMeta tr1 = filesMeta tr @ [vinfo v]" "dirMeta tr1 = dirMeta tr"
      by simp_all
    show ?thesis using False by (auto simp: ih a m split: option.splits)
  qed
qed

lemma walkFunc_register:
  assumes w: "walkFunc tr p info err c = Inr tr'" and d: "IsDir info" and n: "filepath_Dir p \<noteq> p"
  shows "map_of (dirData tr') p = Some \<lparr>files = [], subdirs = []\<rparr>"
proof -
  let ?d1 = "AList.update p \<lparr>files = [], subdirs = []\<rparr> (dirData tr)"
  show ?thesis
  proof (cases "map_of ?d1 (filepath_Dir p)")
    case None
    with w d have "dirData tr' = ?d1"
      by (auto simp: walkFunc_def Let_def split: option.splits)
    then show ?thesis by (simp add: update_conv')
  next
    case (Some x)
    with w d have "dirData tr' =
        AList.update (filepath_Dir p) (x\<lparr>subdirs := subdirs x @ [length (dirMeta tr)]\<rparr>) ?d1"
      by (auto simp: walkFunc_def Let_def split: option.splits)
    with n show ?thesis by (simp add: update_conv')
  qed
qed

lemma acc_files_append:
  "acc_files q (xs @ ys) f = acc_files q xs f @ acc_files q ys (f + length (file_visits xs))"
  by (induction xs arbitrary: f) (simp_all add: file_visits_def)

lemma acc_dirs_append:
  "acc_dirs q (xs @ ys) d = acc_dirs q xs d @ acc_dirs q ys (d + length (dir_visits xs))"
  by (induction xs arbitrary: d) (simp_all add: dir_visits_def)

lemma acc_files_none: "\<forall>v\<in>set xs. filepath_Dir (vpath v) \<noteq> q \<Longrightarrow> acc_files q xs f = []"
  by (induction xs arbitrary: f) simp_all

lemma acc_dirs_none: "\<forall>v\<in>set xs. filepath_Dir (vpath v) \<noteq> q \<Longrightarrow> acc_dirs q xs d = []"
  by (induction xs arbitrary: d) simp_all

lemma run_append:
  "run tr (xs @ ys) = (case run tr xs of Inl e \<Rightarrow> Inl e | Inr tr1 \<Rightarrow> run tr1 ys)"
  by (induction xs arbitrary: tr) (auto split: sum.splits)

text \<open>
  The entry of \<open>dirData\<close> for a directory of the walk, when no path is visited twice and no
  visit up to the directory's own names it as its parent.
\<close>

lemma run_dirData_final:
  assumes r: "run tr0 (xs @ v # ys) = Inr tr'" and d: "IsDir (vinfo v)"
    and dist: "distinct (map vpath (xs @ v # ys))"
    and early: "\<forall>u\<in>set (xs @ [v]). filepath_Dir (vpath u) \<noteq> vpath v"
    and z: "filesMeta tr0 = []" "dirMeta tr0 = []"
  shows "map_of (dirData tr') (vpath v) =
           Some \<lparr>files = acc_files (vpath v) (xs @ v # ys) 0,
                 subdirs = acc_dirs (vpath v) (xs @ v # ys) 0\<rparr>"
proof -
  from r obtain tr1 where r1: "run tr0 xs = Inr tr1" and r2: "run tr1 (v # ys) = Inr tr'"
    by (auto simp: run_append split: sum.splits)
  from r2 obtain tr2 where s: "walkFunc tr1 (vpath v) (vinfo v) (verr v) (vread v) = Inr tr2"
    and r3: "run tr2 ys = Inr tr'"
    by (auto split: sum.splits)
  from early have n: "filepath_Dir (vpath v) \<noteq> vpath v" by simp
  have reg: "map_of (dirData tr2) (vpath v) = Some \<lparr>files = [], subdirs = []\<rparr>"
    using s d n by (rule walkFunc_register)
  from dist have "vpath v \<notin> vpath ` set ys" by auto
  then have nq: "vpath v \<notin> vpath ` set (dir_visits ys)" by (auto simp: dir_visits_def)
  from run_result[OF r1] z have m1: "filesMeta tr1 = map vinfo (file_visits xs)"
    "dirMeta tr1 = map vinfo (dir_visits xs)" by simp_all
  from walkFunc_dir[OF s d] m1 have m2: "length (filesMeta tr2) = length (file_visits xs)"
    "length (dirMeta tr2) = Suc (length (dir_visits xs))" by simp_all
  have "map_of (dirData tr') (vpath v) =
      Some \<lparr>files = acc_files (vpath v) ys (length (file_visits xs)),
            subdirs = acc_dirs (vpath v) ys (Suc (length (dir_visits xs)))\<rparr>"
    using run_dirData_accum[OF r3 nq] reg m2 by simp
  moreover have "acc_files (vpath v) (xs @ v # ys) 0 = acc_files (vpath v) ys (length (file_visits xs))"
    using acc_files_append[of "vpath v" "xs @ [v]" ys 0] acc_files_none[of "xs @ [v]" "vpath v" 0] early d
    by (simp add: file_visits_def)
  moreover have "acc_dirs (vpath v) (xs @ v # ys) 0 = acc_dirs (vpath v) ys (Suc (length (dir_visits xs)))"
    using acc_dirs_append[of "vpath v" "xs @ [v]" ys 0] acc_dirs_none[of "xs @ [v]" "vpath v" 0] early d
    by (simp add: dir_visits_def)
  ultimately show ?thesis by simp
qed

lemma run_names_frame:
  "run tr vs = Inr tr' \<Longrightarrow> p \<notin> vpath ` set vs \<Longrightarrow>
   map_of (names_tr tr') p = map_of (names_tr tr) p"
proof (induction vs arbitrary: tr)
  case Nil
  then show ?case by simp
next
  case (Cons v vs)
  from Cons.prems(1) obtain tr1 where
    s: "walkFunc tr (vpath v) (vinfo v) (verr v) (vread v) = Inr tr1" and r: "run tr1 vs = Inr tr'"
    by (auto split: sum.splits)
  from Cons.prems(2) have "vpath v \<noteq> p" "p \<notin> vpath ` set vs" by auto
  with Cons.IH[OF r] walkFunc_names(1)[OF s] show ?case by (simp add: update_conv')
qed

lemma run_names_dir:
  assumes r: "run tr0 (xs @ v # ys) = Inr tr'" and d: "IsDir (vinfo v)"
    and dist: "distinct (map vpath (xs @ v # ys))" and z: "dirMeta tr0 = []"
  shows "map_of (names_tr tr') (vpath v) = Some (length (dir_visits xs))"
proof -
  from r obtain tr1 where r1: "run tr0 xs = Inr tr1" and r2: "run tr1 (v # ys) = Inr tr'"
    by (auto simp: run_append split: sum.splits)
  from r2 obtain tr2 where s: "walkFunc tr1 (vpath v) (vinfo v) (verr v) (vread v) = Inr tr2"
    and r3: "run tr2 ys = Inr tr'"
    by (auto split: sum.splits)
  from run_result[OF r1] z have "dirMeta tr1 = map vinfo (dir_visits xs)" by simp
  with walkFunc_names(1)[OF s] d have "map_of (names_tr tr2) (vpath v) = Some (length (dir_visits xs))"
    by (simp add: update_conv')
  moreover from dist have "vpath v \<notin> vpath ` set ys" by auto
  ultimately show ?thesis using run_names_frame[OF r3] by simp
qed

lemma indexes_of_set:
  assumes inv: "names_inv tr"
    and inj: "inj_on (\<lambda>p. rootedName p (root tr)) (fst ` set (names_tr tr))"
    and v: "valid_order ord"
  shows "set (indexes_of ord tr) =
           (\<lambda>e. (rootedName (fst e) (root tr), ident tr e)) ` set (names_tr tr)"
proof -
  from inv have dn: "distinct (map fst (names_tr tr))" by (simp add: names_inv_def)
  have "inj_on (\<lambda>e :: string \<times> nat. rootedName (fst e) (root tr)) (set (names_tr tr))"
    using dn inj by (rule inj_on_key_fun)
  then show ?thesis
    using foldl_update_set[of "\<lambda>e. rootedName (fst e) (root tr)" "range_map ord (names_tr tr)" "ident tr"] v
    by (simp add: indexes_of_alt set_range_map)
qed

lemma idx2name_lookup:
  assumes inv: "names_inv tr"
    and inj: "inj_on (\<lambda>p. rootedName p (root tr)) (fst ` set (names_tr tr))"
    and v: "valid_order ord" "valid_order ord'"
    and e: "map_of (names_tr tr) p = Some k"
  shows "map_of (idx2name_of ord' (indexes_of ord tr)) (ident tr (p, k)) = Some (rootedName p (root tr))"
proof -
  let ?ix = "indexes_of ord tr"
  note s = indexes_of_set[OF inv inj v(1)]
  from e have pk: "(p, k) \<in> set (names_tr tr)" by (rule map_of_SomeD)
  then have m: "(rootedName p (root tr), ident tr (p, k)) \<in> set ?ix" by (force simp: s)
  have inj_snd: "inj_on snd (set ?ix)"
  proof (rule inj_onI)
    fix x y assume "x \<in> set ?ix" "y \<in> set ?ix" "snd x = snd y"
    then obtain a b where a: "a \<in> set (names_tr tr)" "x = (rootedName (fst a) (root tr), ident tr a)"
      and b: "b \<in> set (names_tr tr)" "y = (rootedName (fst b) (root tr), ident tr b)"
      and "ident tr a = ident tr b"
      by (auto simp: s)
    with ident_inj[OF inv] have "a = b" by (auto simp: inj_on_def)
    with a b show "x = y" by simp
  qed
  have "map_of (foldl (\<lambda>acc e. AList.update (snd e) (fst e) acc) [] (range_map ord' ?ix))
          (snd (rootedName p (root tr), ident tr (p, k))) = Some (fst (rootedName p (root tr), ident tr (p, k)))"
    by (rule foldl_update_hit) (use m inj_snd v(2) in \<open>simp_all add: set_range_map\<close>)
  then show ?thesis by (simp add: idx2name_of_alt)
qed

lemma subdir_lookup:
  assumes inv: "names_inv tr"
    and inj: "inj_on (\<lambda>p. rootedName p (root tr)) (fst ` set (names_tr tr))"
    and v: "valid_order ord"
    and e: "map_of (dirData tr) p = Some d"
  shows "map_of (subdir_of ord tr) (rootedName p (root tr)) =
           Some (files d @ map (\<lambda>v. v + length (filesMeta tr)) (subdirs d))"
proof -
  from inv have dd: "distinct (map fst (dirData tr))"
    and sub: "fst ` set (dirData tr) \<subseteq> fst ` set (names_tr tr)"
    by (simp_all add: names_inv_def)
  have injd: "inj_on (\<lambda>e :: string \<times> dirInfo. rootedName (fst e) (root tr)) (set (dirData tr))"
    using dd by (rule inj_on_key_fun) (rule inj_on_subset[OF inj sub])
  from e have pd: "(p, d) \<in> set (dirData tr)" by (rule map_of_SomeD)
  have "map_of (foldl (\<lambda>acc e. AList.update (rootedName (fst e) (root tr))
               (files (snd e) @ map (\<lambda>v. v + length (filesMeta tr)) (subdirs (snd e))) acc) []
       (range_map ord (dirData tr))) (rootedName (fst (p, d)) (root tr)) =
        Some (files (snd (p, d)) @ map (\<lambda>v. v + length (filesMeta tr)) (subdirs (snd (p, d))))"
    by (rule foldl_update_hit) (use pd injd v in \<open>simp_all add: set_range_map\<close>)
  then show ?thesis by (simp add: subdir_of_alt)
qed

text \<open>
  The children written for a directory of the walk: the files and then the directories
  that name it as their parent. No path is visited twice, no two paths have the same
  rooted name, and no visit up to the directory's own names it as its parent.
\<close>

lemma children_of_dir_visit:
  assumes w: "writeSection os dir t = Inr l" and vo: "valid_orders os"
    and vs: "visits dir t = xs @ v # ys" and d: "IsDir (vinfo v)"
    and rd: "rooted_distinct dir t"
    and early: "\<forall>u\<in>set (xs @ [v]). filepath_Dir (vpath u) \<noteq> vpath v"
  shows "children (lit_meta l ! (length (lit_data l) + length (dir_visits xs))) =
           map int (acc_files (vpath v) (visits dir t) 0 @
                    map (\<lambda>k. k + length (lit_data l)) (acc_dirs (vpath v) (visits dir t) 0))"
proof -
  from writeSection_Inr[OF w] obtain tr where
    r: "run (new_tree dir) (visits dir t) = Inr tr" and l: "l = writeMetadata os tr" by blast
  have inv: "tree_inv tr" using r new_tree_inv by (rule run_inv)
  from rd have dm: "distinct (map (\<lambda>p. rootedName p dir) (map vpath (visits dir t)))"
    by (simp add: rooted_distinct_def o_def)
  then have "distinct (map vpath (visits dir t)) \<and>
      inj_on (\<lambda>p. rootedName p dir) (set (map vpath (visits dir t)))"
    by (rule distinct_map[THEN iffD1])
  then have dist: "distinct (map vpath (visits dir t))"
    and i: "inj_on (\<lambda>p. rootedName p dir) (vpath ` set (visits dir t))"
    by simp_all
  from run_names_inv[OF r new_tree_names_inv dist]
  have ninv: "names_inv tr" and k: "fst ` set (names_tr tr) = vpath ` set (visits dir t)"
    by (simp_all add: new_tree_def)
  from run_result[OF r] have rt: "root tr = dir"
    and fm: "filesMeta tr = map vinfo (file_visits (visits dir t))"
    and dmm: "dirMeta tr = map vinfo (dir_visits (visits dir t))"
    by (simp_all add: new_tree_def)
  have inj: "inj_on (\<lambda>p. rootedName p (root tr)) (fst ` set (names_tr tr))"
    by (simp add: rt k i)
  let ?F = "length (filesMeta tr)" and ?k = "length (dir_visits xs)"
  have F: "length (lit_data l) = ?F" using inv by (simp add: l writeMetadata_fields tree_inv_def)
  have nm: "map_of (names_tr tr) (vpath v) = Some ?k"
    using r d dist unfolding vs by (rule run_names_dir) (simp add: new_tree_def)
  have dd: "map_of (dirData tr) (vpath v) =
           Some \<lparr>files = acc_files (vpath v) (xs @ v # ys) 0,
                 subdirs = acc_dirs (vpath v) (xs @ v # ys) 0\<rparr>"
    using r d dist early unfolding vs by (rule run_dirData_final) (simp_all add: new_tree_def)
  have id: "ident tr (vpath v, ?k) = ?k + ?F" by (simp add: ident_def dd)
  from vo have v3: "valid_order (ord_names os)" "valid_order (ord_dirData os)" "valid_order (ord_indexes os)"
    by (simp_all add: valid_orders_def)
  have i2n: "lookup0 (idx2name_of (ord_indexes os) (indexes_of (ord_names os) tr)) [] (?F + ?k) =
      rootedName (vpath v) (root tr)"
    using idx2name_lookup[OF ninv inj v3(1) v3(3) nm] by (simp add: lookup0_def id add.commute)
  have sdl: "lookup0 (subdir_of (ord_dirData os) tr) [] (rootedName (vpath v) (root tr)) =
      acc_files (vpath v) (xs @ v # ys) 0 @ map (\<lambda>k. k + ?F) (acc_dirs (vpath v) (xs @ v # ys) 0)"
    using subdir_lookup[OF ninv inj v3(2) dd] by (simp add: lookup0_def)
  have lt: "?k < length (dirMeta tr)" by (simp add: dmm vs dir_visits_def d)
  then have n: "?F + ?k < ?F + length (dirMeta tr)" by simp
  have isd: "IsDir ((filesMeta tr @ dirMeta tr) ! (?F + ?k))"
    using inv lt by (simp add: nth_append tree_inv_def list_all_length)
  have isd': "IsDir (dirMeta tr ! ?k)"
    using inv lt by (simp add: tree_inv_def list_all_length)
  have "children (lit_meta (writeMetadata os tr) ! (?F + ?k)) =
      map int (acc_files (vpath v) (xs @ v # ys) 0 @
               map (\<lambda>k. k + ?F) (acc_dirs (vpath v) (xs @ v # ys) 0))"
    by (simp add: writeMetadata_nth[OF n] meta_item_children isd isd' i2n sdl)
  with F show ?thesis by (simp add: l vs)
qed

lemma acc_files_kid_files:
  "length cs = length vs \<Longrightarrow>
   (\<And>c u. (c, u) \<in> set (zip cs vs) \<Longrightarrow> (filepath_Dir (vpath u) = q) = is_kid ns c) \<Longrightarrow>
   acc_files q vs f = kid_files ns (zip cs vs) f"
proof (induction vs arbitrary: cs f)
  case Nil
  then show ?case by simp
next
  case (Cons v vs)
  then obtain c cs' where cs: "cs = c # cs'" by (cases cs) auto
  with Cons.prems have l: "length cs' = length vs" by simp
  have ih: "acc_files q vs g = kid_files ns (zip cs' vs) g" for g
    using l by (rule Cons.IH) (use Cons.prems(2) cs in auto)
  from Cons.prems(2)[of c v] have "(filepath_Dir (vpath v) = q) = is_kid ns c" by (simp add: cs)
  then show ?case by (simp add: cs ih)
qed

lemma acc_dirs_kid_dirs:
  "length cs = length vs \<Longrightarrow>
   (\<And>c u. (c, u) \<in> set (zip cs vs) \<Longrightarrow> (filepath_Dir (vpath u) = q) = is_kid ns c) \<Longrightarrow>
   acc_dirs q vs f = kid_dirs ns (zip cs vs) f"
proof (induction vs arbitrary: cs f)
  case Nil
  then show ?case by simp
next
  case (Cons v vs)
  then obtain c cs' where cs: "cs = c # cs'" by (cases cs) auto
  with Cons.prems have l: "length cs' = length vs" by simp
  have ih: "acc_dirs q vs g = kid_dirs ns (zip cs' vs) g" for g
    using l by (rule Cons.IH) (use Cons.prems(2) cs in auto)
  from Cons.prems(2)[of c v] have "(filepath_Dir (vpath v) = q) = is_kid ns c" by (simp add: cs)
  then show ?case by (simp add: cs ih)
qed

lemma join_slash_not_dot: "list_all plain es \<Longrightarrow> join_slash es \<noteq> ''.''"
proof
  assume p: "list_all plain es" and e: "join_slash es = ''.''"
  then have ne: "es \<noteq> []" by auto
  from split_slash_join_id[OF p ne] e have "es = [''.'']" by simp
  with p show False by (simp add: plain_def)
qed

lemma filepath_Dir_chain:
  assumes res: "list_all plain res" "res \<noteq> []" and c: "list_all plain c" and ns: "list_all plain ns"
  shows "(filepath_Dir (join_slash (res @ c)) = join_slash (res @ ns)) = is_kid ns c"
proof (cases "c = []")
  case True
  have "filepath_Dir (join_slash res) \<noteq> join_slash (res @ ns)"
  proof (cases "butlast res = []")
    case True
    with res(2) have r1: "res = [last res]" by (metis append_butlast_last_id append_Nil)
    have "plain (last res)" using res by (simp add: list_all_iff)
    then have "filepath_Dir (join_slash [last res]) = ''.''"
      using filepath_Dir_single[of "last res"] by simp
    then have "filepath_Dir (join_slash res) = ''.''" using r1 by metis
    moreover have "join_slash (res @ ns) \<noteq> ''.''"
      using res ns by (intro join_slash_not_dot) simp
    ultimately show ?thesis by simp
  next
    case False
    have pb: "list_all plain (butlast res)" using res(1) by (auto simp: list_all_iff dest: in_set_butlastD)
    have pl: "plain (last res)" using res by (simp add: list_all_iff)
    have "filepath_Dir (join_slash (butlast res @ [last res])) = join_slash (butlast res)"
      using pb False pl by (rule filepath_Dir_plain)
    then have d: "filepath_Dir (join_slash res) = join_slash (butlast res)" using res(2) by simp
    show ?thesis
    proof
      assume "filepath_Dir (join_slash res) = join_slash (res @ ns)"
      with d have eq: "join_slash (butlast res) = join_slash (res @ ns)" by simp
      have "butlast res = res @ ns"
        by (rule join_slash_inj[OF pb _ eq]) (use res ns in simp)
      then have "length (butlast res) = length (res @ ns)" by simp
      moreover have "length (butlast res) < length res" using res(2) by (simp add: length_greater_0_conv)
      ultimately show False by simp
    qed
  qed
  with True show ?thesis by (simp add: is_kid_def)
next
  case False
  have pb: "list_all plain (res @ butlast c)"
    using res(1) c by (auto simp: list_all_iff dest: in_set_butlastD)
  have pl: "plain (last c)" using c False by (simp add: list_all_iff)
  have "filepath_Dir (join_slash ((res @ butlast c) @ [last c])) = join_slash (res @ butlast c)"
    using pb _ pl by (rule filepath_Dir_plain) (use res(2) in simp)
  then have d: "filepath_Dir (join_slash (res @ c)) = join_slash (res @ butlast c)"
    using False by simp
  have "(join_slash (res @ butlast c) = join_slash (res @ ns)) = (butlast c = ns)"
  proof
    assume eq: "join_slash (res @ butlast c) = join_slash (res @ ns)"
    have "res @ butlast c = res @ ns"
      by (rule join_slash_inj[OF pb _ eq]) (use res ns in simp)
    then show "butlast c = ns" by simp
  qed simp
  with d False show ?thesis by (simp add: is_kid_def)
qed

lemma length_chains: "length (chains t) = length (visits p t)"
proof (induction t arbitrary: p)
  case (FsDir st es)
  have "length (concat (map (\<lambda>e. map ((#) (node_name e)) (chains e)) es')) =
        length (concat (map (\<lambda>e. visits (filepath_Join p (node_name e)) e) es'))"
    if "set es' \<subseteq> set es" for es'
    using that
  proof (induction es')
    case Nil
    then show ?case by simp
  next
    case (Cons e es')
    then have "e \<in> set es" by simp
    from FsDir.IH[OF this, of "filepath_Join p (node_name e)"] Cons show ?case by simp
  qed
  from this[of "sort_key node_name es"] show ?case by simp
qed simp_all

lemma concat_split:
  "concat xss = pre @ c # post \<Longrightarrow>
   \<exists>xs1 b xs2 p1 p2. xss = xs1 @ b # xs2 \<and> b = p1 @ c # p2 \<and> pre = concat xs1 @ p1"
proof (induction xss arbitrary: pre)
  case Nil
  then show ?case by simp
next
  case (Cons b xss)
  from Cons.prems have "b @ concat xss = pre @ c # post" by simp
  then obtain us where
    "b = pre @ us \<and> us @ concat xss = c # post \<or> b @ us = pre \<and> concat xss = us @ c # post"
    by (auto simp: append_eq_append_conv2)
  then show ?case
  proof
    assume a: "b = pre @ us \<and> us @ concat xss = c # post"
    show ?thesis
    proof (cases us)
      case Nil
      with a have "concat xss = [] @ c # post" and pb: "pre = b" by simp_all
      from Cons.IH[OF this(1)] obtain xs1 b' xs2 p1 p2 where
        "xss = xs1 @ b' # xs2" "b' = p1 @ c # p2" "[] = concat xs1 @ p1" by blast
      then have "b # xss = (b # xs1) @ b' # xs2 \<and> b' = p1 @ c # p2 \<and> pre = concat (b # xs1) @ p1"
        using pb by simp
      then show ?thesis by blast
    next
      case (Cons u us')
      with a have "b = pre @ c # us'" by simp
      then have "b # xss = [] @ b # xss \<and> b = pre @ c # us' \<and> pre = concat [] @ pre" by simp
      then show ?thesis by blast
    qed
  next
    assume a: "b @ us = pre \<and> concat xss = us @ c # post"
    then have "concat xss = us @ c # post" by simp
    from Cons.IH[OF this] obtain xs1 b' xs2 p1 p2 where
      "xss = xs1 @ b' # xs2" "b' = p1 @ c # p2" "us = concat xs1 @ p1" by blast
    then have "b # xss = (b # xs1) @ b' # xs2 \<and> b' = p1 @ c # p2 \<and> pre = concat (b # xs1) @ p1"
      using a by auto
    then show ?thesis by blast
  qed
qed

lemma chains_pfirst: "pfirst (chains t)"
proof (induction t)
  case (FsDir st es)
  let ?bs = "map (\<lambda>e. map ((#) (node_name e)) (chains e)) (sort_key node_name es)"
  show ?case
    unfolding pfirst_def
  proof (intro allI impI)
    fix pre c post
    assume eq: "chains (FsDir st es) = pre @ c # post" and ne: "c \<noteq> []"
    then obtain pre' where pre: "pre = [] # pre'" and cc: "concat ?bs = pre' @ c # post"
      by (cases pre) auto
    from concat_split[OF cc] obtain xs1 b xs2 p1 p2 where
      s: "?bs = xs1 @ b # xs2" "b = p1 @ c # p2" "pre' = concat xs1 @ p1" by blast
    from s(1) have "b \<in> set ?bs" by simp
    then obtain e where e: "e \<in> set es" and b: "b = map ((#) (node_name e)) (chains e)" by auto
    from s(2) b obtain q1 c0 q2 where q: "chains e = q1 @ c0 # q2" "p1 = map ((#) (node_name e)) q1"
      "c = node_name e # c0"
      by (auto simp: map_eq_append_conv Cons_eq_map_conv)
    show "butlast c \<in> set pre"
    proof (cases "c0 = []")
      case True
      with q(3) pre show ?thesis by simp
    next
      case False
      from FsDir.IH[OF e] q(1) False have "butlast c0 \<in> set q1" by (auto simp: pfirst_def)
      then have "node_name e # butlast c0 \<in> set p1" by (simp add: q(2))
      with False q(3) s(3) pre show ?thesis by simp
    qed
  qed
qed (auto simp: pfirst_def Cons_eq_append_conv)

text \<open>
  For a root given as a relative path of plain names and a tree whose directories hold
  plain names, each once, the children written for a directory of the walk are the
  numbers of the files among its entries, in the order of the walk, followed by the
  numbers of the directories among its entries, in the order of the walk.
\<close>

lemma children_exact:
  assumes sr: "simple_root dir" and wf: "wf_tree t" and vo: "valid_orders os"
    and w: "writeSection os dir t = Inr l"
    and a: "a < length (visits dir t)" and d: "IsDir (vinfo (visits dir t ! a))"
  shows "children (lit_meta l ! (length (lit_data l) + length (dir_visits (take a (visits dir t))))) =
           map int (kid_files (chains t ! a) (zip (chains t) (visits dir t)) 0 @
                    map (\<lambda>k. k + length (lit_data l))
                      (kid_dirs (chains t ! a) (zip (chains t) (visits dir t)) 0))"
proof -
  from sr obtain res where res: "res \<noteq> []" "list_all plain res" "dir = join_slash res"
    by (auto simp: simple_root_def)
  let ?vs = "visits dir t" and ?cs = "chains t"
  have len: "length ?cs = length ?vs" by (rule length_chains)
  have pl: "list_all (list_all plain) ?cs" using wf by (rule chains_plain)
  have dc: "distinct ?cs" using wf by (rule chains_distinct)
  have paths: "map vpath ?vs = map (\<lambda>ns. join_slash (res @ ns)) ?cs"
    using visits_paths[OF wf res(2,1)] by (simp add: res(3))
  have path: "vpath (?vs ! b) = join_slash (res @ ?cs ! b)" if "b < length ?vs" for b
  proof -
    have "map vpath ?vs ! b = map (\<lambda>ns. join_slash (res @ ns)) ?cs ! b" by (simp add: paths)
    with that len show ?thesis by simp
  qed
  let ?xs = "take a ?vs" and ?v = "?vs ! a" and ?ys = "drop (Suc a) ?vs"
  have split: "?vs = ?xs @ ?v # ?ys" using a by (simp add: id_take_nth_drop)
  have pa: "list_all plain (?cs ! a)" using pl a len by (simp add: list_all_length)
  have kid: "(filepath_Dir (vpath u) = vpath ?v) = is_kid (?cs ! a) c" if "(c, u) \<in> set (zip ?cs ?vs)" for c u
  proof -
    from that obtain b where b: "b < length ?vs" "c = ?cs ! b" "u = ?vs ! b"
      using len by (auto simp: in_set_zip)
    have pc: "list_all plain c" using pl b len by (simp add: list_all_length)
    show ?thesis
      using filepath_Dir_chain[OF res(2,1) pc pa] by (simp add: b path a)
  qed
  have early: "\<forall>u\<in>set (?xs @ [?v]). filepath_Dir (vpath u) \<noteq> vpath ?v"
  proof
    fix u assume "u \<in> set (?xs @ [?v])"
    then have "u \<in> set (take (Suc a) ?vs)" using a by (simp add: take_Suc_conv_app_nth)
    then obtain b where b: "b \<le> a" "u = ?vs ! b"
      using a by (auto simp: in_set_conv_nth less_Suc_eq_le)
    show "filepath_Dir (vpath u) \<noteq> vpath ?v"
    proof
      assume "filepath_Dir (vpath u) = vpath ?v"
      moreover have "(?cs ! b, u) \<in> set (zip ?cs ?vs)"
        using b a len by (auto simp: in_set_zip)
      ultimately have k: "is_kid (?cs ! a) (?cs ! b)" using kid by blast
      then have ne: "?cs ! b \<noteq> []" and bl: "butlast (?cs ! b) = ?cs ! a" by (simp_all add: is_kid_def)
      have bl': "b < length ?cs" using b a len by simp
      have "?cs = take b ?cs @ ?cs ! b # drop (Suc b) ?cs" using bl' by (simp add: id_take_nth_drop)
      with chains_pfirst[of t] ne have "butlast (?cs ! b) \<in> set (take b ?cs)"
        unfolding pfirst_def by blast
      with bl obtain j where j: "j < b" "?cs ! j = ?cs ! a"
        using bl' by (auto simp: in_set_conv_nth)
      with dc b a len have "j = a" by (simp add: nth_eq_iff_index_eq)
      with j b show False by simp
    qed
  qed
  have rd: "rooted_distinct dir t" using sr wf by (rule simple_root_rooted_distinct)
  from d have d': "IsDir (vinfo ?v)" .
  have "children (lit_meta l ! (length (lit_data l) + length (dir_visits ?xs))) =
           map int (acc_files (vpath ?v) ?vs 0 @
                    map (\<lambda>k. k + length (lit_data l)) (acc_dirs (vpath ?v) ?vs 0))"
    using w vo split d' rd early by (rule children_of_dir_visit)
  moreover have "acc_files (vpath ?v) ?vs 0 = kid_files (?cs ! a) (zip ?cs ?vs) 0"
    using len by (rule acc_files_kid_files) (rule kid)
  moreover have "acc_dirs (vpath ?v) ?vs 0 = kid_dirs (?cs ! a) (zip ?cs ?vs) 0"
    using len by (rule acc_dirs_kid_dirs) (rule kid)
  ultimately show ?thesis by simp
qed

section \<open>The sample tree\<close>

lemma red_green_rooted_distinct:
  "rooted_distinct ''static'' red_green \<and>
   rooted_distinct ''static'' (FsDir (mkstat ''static'' 4096 493)
       [FsFile (mkstat ''green'' 3 420) ''cde'', FsFile (mkstat ''red'' 3 420) ''abc''])"
  by code_simp

lemma red_green_in_order:
  "writeSection in_orders ''static'' red_green = Inr red_green_literal \<and>
   writeSection in_orders ''static'' (FsDir (mkstat ''static'' 4096 493)
       [FsFile (mkstat ''green'' 3 420) ''cde'', FsFile (mkstat ''red'' 3 420) ''abc''])
     = Inr red_green_literal"
  by code_simp

text \<open>
  C4, as the code has it. The walk takes the entries of a directory in the order of their
  names, so \<open>green\<close> is met before \<open>red\<close>: the literal built from the sample tree has the
  file entries \<open>green\<close> (0) and \<open>red\<close> (1) and the root directory (2) with children
  \<open>[0, 1]\<close>, and \<open>names\<close> maps \<open>/green\<close> to 0, \<open>/red\<close> to 1 and \<open>/\<close> to 2, whatever
  the order in which the tree lists the two files and in which the maps are ranged over.
  Opening \<open>/red\<close> and reading yields the three bytes \<open>abc\<close> and then \<open>io.EOF\<close>; opening \<open>/\<close>
  and listing without a bound returns the entry \<open>green\<close> followed by the entry \<open>red\<close>.
\<close>

theorem red_green_build:
  assumes "valid_orders os"
  shows
  "writeSection os ''static'' red_green = Inr red_green_literal \<and>
   writeSection os ''static'' (FsDir (mkstat ''static'' 4096 493)
       [FsFile (mkstat ''green'' 3 420) ''cde'', FsFile (mkstat ''red'' 3 420) ''abc''])
     = Inr red_green_literal \<and>
   map (names (load red_green_literal)) [''/green'', ''/red'', ''/''] = [Some 0, Some 1, Some 2] \<and>
   dom (names (load red_green_literal)) = {''/green'', ''/red'', ''/''} \<and>
   Open (Some (load red_green_literal)) ''/red'' = Inr built_red \<and>
   snd (Read built_red 3) = Inr ''abc'' \<and>
   snd (Read built_red 512) = Inr ''abc'' \<and>
   snd (Read (fst (Read built_red 512)) 512) = Inl EOF \<and>
   Open (Some (load red_green_literal)) ''/'' = Inr built_root \<and>
   children (fi built_root) = [0, 1] \<and>
   map_sum id (map name) (snd (Readdir built_root 0)) = Inr [''green'', ''red'']"
proof -
  have 1: "writeSection os ''static'' red_green = Inr red_green_literal"
    using writeSection_order_irrelevant[OF _ assms valid_in_orders, of "''static''" red_green]
      red_green_rooted_distinct red_green_in_order by simp
  have 2: "writeSection os ''static'' (FsDir (mkstat ''static'' 4096 493)
       [FsFile (mkstat ''green'' 3 420) ''cde'', FsFile (mkstat ''red'' 3 420) ''abc''])
     = Inr red_green_literal"
    using writeSection_order_irrelevant[OF _ assms valid_in_orders, of "''static''"
        "FsDir (mkstat ''static'' 4096 493)
           [FsFile (mkstat ''green'' 3 420) ''cde'', FsFile (mkstat ''red'' 3 420) ''abc'']"]
      red_green_rooted_distinct red_green_in_order by simp
  have 4: "map (names (load red_green_literal)) [''/green'', ''/red'', ''/''] = [Some 0, Some 1, Some 2]"
    by (simp add: load_def red_green_literal_def)
  have 5: "dom (names (load red_green_literal)) = {''/green'', ''/red'', ''/''}"
    by (auto simp: load_def red_green_literal_def dom_def split: if_splits)
  have 6: "Open (Some (load red_green_literal)) ''/red'' = Inr built_red"
    by (simp add: Open_def load_def red_green_literal_def Clean_def index_def built_red_def)
  have 7: "snd (Read built_red 3) = Inr ''abc''" "snd (Read built_red 512) = Inr ''abc''"
    "snd (Read (fst (Read built_red 512)) 512) = Inl EOF"
    by (simp_all add: Read_def built_red_def red_green_literal_def Reader_Read_def NewReader_def Let_def)
  have 8: "Open (Some (load red_green_literal)) ''/'' = Inr built_root"
    by (simp add: Open_def load_def red_green_literal_def Clean_def index_def built_root_def)
  have 9: "children (fi built_root) = [0, 1]"
    by (simp add: built_root_def red_green_literal_def)
  have 10: "map_sum id (map name) (snd (Readdir built_root 0)) = Inr [''green'', ''red'']"
    by (simp add: Readdir_def built_root_def red_green_literal_def load_def slice_from_def index_def)
  from 1 2 4 5 6 7 8 9 10 show ?thesis by blast
qed

theorem red_green_build_witness:
  "valid_orders rev_orders \<and>
   writeSection rev_orders ''static'' red_green = Inr red_green_literal \<and>
   Open (Some (load red_green_literal)) ''/red'' = Inr built_red \<and>
   snd (Read built_red 512) = Inr ''abc'' \<and>
   Open (Some (load red_green_literal)) ''/'' = Inr built_root \<and>
   map_sum id (map name) (snd (Readdir built_root 0)) = Inr [''green'', ''red'']"
  using red_green_build[OF valid_rev_orders] valid_rev_orders by blast

text \<open>
  C4 as stated fails: in the literal built from the sample tree \<open>/red\<close> is 1 and not 0,
  \<open>/green\<close> is 0 and not 1, and the listing of the root starts with \<open>green\<close>; the literal is
  not the template's sample \<open>static_fs\<close>.
\<close>

theorem red_green_not_as_claimed:
  "writeSection in_orders ''static'' red_green = Inr red_green_literal \<and>
   writeSection rev_orders ''static'' red_green = Inr red_green_literal \<and>
   names (load red_green_literal) ''/red'' \<noteq> Some 0 \<and>
   names (load red_green_literal) ''/green'' \<noteq> Some 1 \<and>
   map_sum id (map name) (snd (Readdir built_root 0)) \<noteq> Inr [''red'', ''green''] \<and>
   load red_green_literal \<noteq> static_fs"
proof -
  have 1: "writeSection in_orders ''static'' red_green = Inr red_green_literal"
    by code_simp
  have 2: "writeSection rev_orders ''static'' red_green = Inr red_green_literal"
    by code_simp
  have 3: "names (load red_green_literal) ''/red'' \<noteq> Some 0"
    "names (load red_green_literal) ''/green'' \<noteq> Some 1"
    by (simp_all add: load_def red_green_literal_def)
  have 4: "map_sum id (map name) (snd (Readdir built_root 0)) \<noteq> Inr [''red'', ''green'']"
    by (simp add: Readdir_def built_root_def red_green_literal_def load_def slice_from_def index_def)
  have "data (load red_green_literal) \<noteq> data static_fs"
    by (simp add: load_def red_green_literal_def static_fs_def)
  then have 5: "load red_green_literal \<noteq> static_fs" by auto
  from 1 2 3 4 5 show ?thesis by blast
qed

section \<open>The current directory as the root\<close>

text \<open>
  C8 at the root \<open>.\<close>: \<open>filepath.Walk\<close> passes the paths \<open>.\<close>, \<open>.x\<close> and \<open>x\<close>, and \<open>rootedName\<close>
  makes \<open>x\<close> of both files, so the number kept for \<open>x\<close> in \<open>indexes\<close> is that of the file the
  \<open>range\<close> over \<open>names\<close> meets last. Two valid orders give two different literals: the same
  tree can be built into two different outputs. (Where no two paths of the walk have the
  same rooted name the output is the same for all orders: \<open>writeSection_order_irrelevant\<close>,
  \<open>build_deterministic\<close>.)
\<close>

theorem dot_root_order_dependent:
  "valid_orders in_orders \<and> valid_orders rev_orders \<and>
   map vpath (visits ''.'' dot_tree) = [''.'', ''.x'', ''x''] \<and>
   map (\<lambda>p. rootedName p ''.'') [''.'', ''.x'', ''x''] = [''/'', ''x'', ''x''] \<and>
   map_sum id lit_names (writeSection in_orders ''.'' dot_tree) = Inr [([], 0), (''x'', 1)] \<and>
   map_sum id lit_names (writeSection rev_orders ''.'' dot_tree) = Inr [(''x'', 0), ([], 1)] \<and>
   writeSection in_orders ''.'' dot_tree \<noteq> writeSection rev_orders ''.'' dot_tree \<and>
   generateMain in_orders (\<lambda>p. dot_tree) [''.''] \<noteq> generateMain rev_orders (\<lambda>p. dot_tree) [''.'']"
proof -
  have 1: "map vpath (visits ''.'' dot_tree) = [''.'', ''.x'', ''x'']"
    "map (\<lambda>p. rootedName p ''.'') [''.'', ''.x'', ''x''] = [''/'', ''x'', ''x'']"
    by code_simp+
  have 2: "map_sum id lit_names (writeSection in_orders ''.'' dot_tree) = Inr [([], 0), (''x'', 1)]"
    by code_simp
  have 3: "map_sum id lit_names (writeSection rev_orders ''.'' dot_tree) = Inr [(''x'', 0), ([], 1)]"
    by code_simp
  from 2 3 have 4: "writeSection in_orders ''.'' dot_tree \<noteq> writeSection rev_orders ''.'' dot_tree"
    by auto
  have c: "Clean ''.'' = ''.''" by (simp add: Clean_def)
  from 4 have 5: "generateMain in_orders (\<lambda>p. dot_tree) [''.''] \<noteq> generateMain rev_orders (\<lambda>p. dot_tree) [''.'']"
    by (auto simp: c split: sum.splits)
  from 1 2 3 4 5 valid_in_orders valid_rev_orders show ?thesis by blast
qed

text \<open>
  C9 at the root \<open>.\<close>: \<open>filepath.Dir(".")\<close> is \<open>.\<close>, so \<open>walkFunc\<close> finds the root in \<open>dirData\<close>
  as its own parent and appends the root's number to the root's \<open>subdirs\<close>. The root, entry
  1 of the literal, lists the file \<open>x\<close> and then itself, which is not one of its
  subdirectories. (Under a root that is a relative path of plain names the children are
  the directory's files and then its subdirectories: \<open>children_exact\<close>.)
\<close>

theorem dot_root_lists_itself:
  "filepath_Dir ''.'' = ''.'' \<and>
   writeSection in_orders ''.'' dot_single =
     Inr \<lparr>lit_key = ''.'', lit_data = [''a''],
          lit_meta =
            [\<lparr>name = ''x'', size_ = 1, mode = 420, mtime = 0, isDir = False, children = []\<rparr>,
             \<lparr>name = ''.'', size_ = 0, mode = 493, mtime = 0, isDir = True, children = [0, 1]\<rparr>],
          lit_names = [(''x'', 0), (''/'', 1)]\<rparr> \<and>
   writeSection rev_orders ''.'' dot_single = writeSection in_orders ''.'' dot_single"
proof -
  have 1: "filepath_Dir ''.'' = ''.''" by code_simp
  have 2: "writeSection in_orders ''.'' dot_single =
     Inr \<lparr>lit_key = ''.'', lit_data = [''a''],
          lit_meta =
            [\<lparr>name = ''x'', size_ = 1, mode = 420, mtime = 0, isDir = False, children = []\<rparr>,
             \<lparr>name = ''.'', size_ = 0, mode = 493, mtime = 0, isDir = True, children = [0, 1]\<rparr>],
          lit_names = [(''x'', 0), (''/'', 1)]\<rparr>"
    by code_simp
  have 3: "writeSection rev_orders ''.'' dot_single = writeSection in_orders ''.'' dot_single"
    by code_simp
  from 1 2 3 show ?thesis by blast
qed

end
